theory Spec2Isabelle
  imports Complex_Main "HOL-Library.Word" "HOL-Library.AList"
begin

section \<open>Data model\<close>

text \<open>
  A sector file is a sequence of bytes. Elevation samples are Python floats; every float
  operation the codec performs on them (division and multiplication by 128, the
  normalisation arithmetic) is modelled over the rationals, that is, as exact arithmetic.
  Exceptions are values of \<open>py_error\<close>; a function that raises returns \<open>Inl\<close>.
\<close>

type_synonym byte = "8 word"

datatype py_error = ValueError | IndexError | OverflowError

text \<open>
  A two-dimensional NumPy array: its shape and its rows. The shape is kept explicitly
  because an array with zero rows still has a column count (\<open>np.zeros((0, 5))\<close>).
\<close>

record ndarray =
  nrows :: nat
  ncols :: nat
  cells :: "rat list list"

definition shape_ok :: "ndarray \<Rightarrow> bool" where
  "shape_ok a \<longleftrightarrow> length (cells a) = nrows a \<and> list_all (\<lambda>r. length r = ncols a) (cells a)"

text \<open>\<open>a[y, x]\<close> with non-negative indices: IndexError outside the shape.\<close>

definition getitem2 :: "ndarray \<Rightarrow> nat \<Rightarrow> nat \<Rightarrow> py_error + rat" where
  "getitem2 a y x = (if y < nrows a \<and> x < ncols a then Inr (cells a ! y ! x) else Inl IndexError)"

text \<open>
  \<open>np.array(rows)\<close> on a list of lists of floats. Rows of unequal length raise ValueError
  (inhomogeneous shape, NumPy 1.24 and later); the empty list gives an empty array.
\<close>

definition np_array :: "rat list list \<Rightarrow> py_error + ndarray" where
  "np_array rows =
     (case rows of
        [] \<Rightarrow> Inr \<lparr>nrows = 0, ncols = 0, cells = []\<rparr>
      | r # rs \<Rightarrow>
          if list_all (\<lambda>r'. length r' = length r) rs
          then Inr \<lparr>nrows = length rows, ncols = length r, cells = rows\<rparr>
          else Inl ValueError)"

definition np_flipud :: "ndarray \<Rightarrow> ndarray" where
  "np_flipud a = a\<lparr>cells := rev (cells a)\<rparr>"

section \<open>Sector codec\<close>

subsection \<open>Integer conversions\<close>

text \<open>\<open>int.from_bytes(data, 'little')\<close>.\<close>

fun from_bytes_little :: "byte list \<Rightarrow> int" where
  "from_bytes_little [] = 0"
| "from_bytes_little (b # bs) = uint b + 256 * from_bytes_little bs"

text \<open>\<open>v.to_bytes(2, 'little')\<close>: OverflowError outside the unsigned 16-bit range.\<close>

definition to_bytes2_little :: "int \<Rightarrow> py_error + byte list" where
  "to_bytes2_little v =
     (if 0 \<le> v \<and> v < 65536 then Inr [word_of_int v, word_of_int (v div 256)]
      else Inl OverflowError)"

text \<open>\<open>int(f)\<close> on a float truncates towards zero.\<close>

definition py_int :: "rat \<Rightarrow> int" where
  "py_int r = (if 0 \<le> r then \<lfloor>r\<rfloor> else \<lceil>r\<rceil>)"

subsection \<open>\<open>load_single_sector\<close>\<close>

text \<open>
  The inner loop over \<open>x\<close>: the first argument counts the iterations left, the second is
  the unread rest of the \<open>BytesIO\<close> stream, the third the row built so far. The result is
  the row and the stream after the loop. A read of fewer than two bytes leaves the loop
  (and has consumed what was left).
\<close>

fun read_row :: "nat \<Rightarrow> byte list \<Rightarrow> rat list \<Rightarrow> rat list \<times> byte list" where
  "read_row 0 s row = (row, s)"
| "read_row (Suc n) s row =
     (let data = take 2 s; s1 = drop 2 s in
      if length data < 2 then (row, s1)
      else read_row n (drop 2 s1) (row @ [of_int (from_bytes_little data) / 128]))"

text \<open>The outer loop over \<open>y\<close>: one row per iteration, in order.\<close>

fun read_rows :: "nat \<Rightarrow> nat \<Rightarrow> byte list \<Rightarrow> rat list list" where
  "read_rows 0 grid_size s = []"
| "read_rows (Suc n) grid_size s =
     (case read_row grid_size s [] of (row, s') \<Rightarrow> row # read_rows n grid_size s')"

text \<open>
  The file is given by its content. \<open>f.seek(708); f.read(16900)\<close> takes at most 16900
  bytes from offset 708, whatever \<open>grid_size\<close> is. \<open>Inl\<close> is the \<open>except\<close> branch
  (the function returns \<open>None\<close>).
\<close>

definition load_single_sector :: "byte list \<Rightarrow> nat \<Rightarrow> py_error + ndarray" where
  "load_single_sector file_content grid_size =
     (let terrain_data_bytes = take 16900 (drop 708 file_content)
      in np_array (read_rows grid_size grid_size terrain_data_bytes))"

subsection \<open>\<open>write_sector_to_file\<close>\<close>

text \<open>
  \<open>file_content[pos:pos+2] = b\<close> on a bytearray: the slice bounds are clipped to the
  length, so a position at or past the end appends.
\<close>

definition set_slice2 :: "byte list \<Rightarrow> nat \<Rightarrow> byte list \<Rightarrow> byte list" where
  "set_slice2 file_content pos b = take pos file_content @ b @ drop (pos + 2) file_content"

text \<open>The loop over \<open>x\<close> for a fixed \<open>y\<close>, on the flipped height data.\<close>

fun write_row :: "ndarray \<Rightarrow> nat \<Rightarrow> nat \<Rightarrow> nat list \<Rightarrow> byte list \<Rightarrow> py_error + byte list" where
  "write_row height_data_flipped grid_size y [] file_content = Inr file_content"
| "write_row height_data_flipped grid_size y (x # xs) file_content =
     (case getitem2 height_data_flipped y x of
        Inl e \<Rightarrow> Inl e
      | Inr h \<Rightarrow>
          (let height_value = max 0 (min 65535 (py_int (h * 128)));
               pos = 708 + (y * grid_size + x) * 4
           in case to_bytes2_little height_value of
                Inl e \<Rightarrow> Inl e
              | Inr b \<Rightarrow>
                  write_row height_data_flipped grid_size y xs (set_slice2 file_content pos b)))"

fun write_rows :: "ndarray \<Rightarrow> nat \<Rightarrow> nat list \<Rightarrow> byte list \<Rightarrow> py_error + byte list" where
  "write_rows height_data_flipped grid_size [] file_content = Inr file_content"
| "write_rows height_data_flipped grid_size (y # ys) file_content =
     (case write_row height_data_flipped grid_size y [0..<grid_size] file_content of
        Inl e \<Rightarrow> Inl e
      | Inr file_content' \<Rightarrow> write_rows height_data_flipped grid_size ys file_content')"

text \<open>
  The file's content before, to the file's content after. \<open>Inr\<close> is \<open>return True\<close> with
  the bytes written back; \<open>Inl\<close> is the \<open>except\<close> branch (\<open>return False\<close>, nothing written).
\<close>

definition write_sector_to_file :: "byte list \<Rightarrow> ndarray \<Rightarrow> nat \<Rightarrow> py_error + byte list" where
  "write_sector_to_file file_content height_data grid_size =
     (let height_data_flipped = np_flipud height_data
      in write_rows height_data_flipped grid_size [0..<grid_size] file_content)"

section \<open>NumPy operations used by the mosaic code\<close>

text \<open>
  Arrays are built cell by cell from an index function; \<open>cell_at a i j\<close> reads a cell of an
  array whose shape is known to contain \<open>(i, j)\<close>.
\<close>

definition cell_at :: "ndarray \<Rightarrow> nat \<Rightarrow> nat \<Rightarrow> rat" where
  "cell_at a i j = cells a ! i ! j"

definition tabulate2 :: "nat \<Rightarrow> nat \<Rightarrow> (nat \<Rightarrow> nat \<Rightarrow> rat) \<Rightarrow> ndarray" where
  "tabulate2 r c f = \<lparr>nrows = r, ncols = c, cells = map (\<lambda>i. map (\<lambda>j. f i j) [0..<c]) [0..<r]\<rparr>"

definition np_zeros :: "nat \<Rightarrow> nat \<Rightarrow> ndarray" where
  "np_zeros r c = \<lparr>nrows = r, ncols = c, cells = replicate r (replicate c 0)\<rparr>"

definition np_zeros_like :: "ndarray \<Rightarrow> ndarray" where
  "np_zeros_like a = np_zeros (nrows a) (ncols a)"

definition np_fliplr :: "ndarray \<Rightarrow> ndarray" where
  "np_fliplr a = a\<lparr>cells := map rev (cells a)\<rparr>"

definition np_transpose :: "ndarray \<Rightarrow> ndarray" where
  "np_transpose a = tabulate2 (ncols a) (nrows a) (\<lambda>i j. cell_at a j i)"

text \<open>
  \<open>np.rot90(m, k)\<close> as NumPy defines it: \<open>k\<close> is reduced modulo 4; one quarter turn
  counter-clockwise is the transpose of the left-right flip, three quarter turns (\<open>k = -1\<close>,
  clockwise) the left-right flip of the transpose.
\<close>

definition np_rot90 :: "ndarray \<Rightarrow> int \<Rightarrow> ndarray" where
  "np_rot90 m k =
     (let k' = k mod 4 in
      if k' = 0 then m
      else if k' = 2 then np_fliplr (np_flipud m)
      else if k' = 1 then np_transpose (np_fliplr m)
      else np_fliplr (np_transpose m))"

text \<open>
  \<open>a[sy:ey, sx:ex]\<close> for \<open>0 \<le> sy \<le> ey\<close> and \<open>0 \<le> sx \<le> ex\<close>: the bounds are clipped to the
  shape.
\<close>

definition np_slice :: "ndarray \<Rightarrow> nat \<Rightarrow> nat \<Rightarrow> nat \<Rightarrow> nat \<Rightarrow> ndarray" where
  "np_slice a sy ey sx ex =
     tabulate2 (min ey (nrows a) - min sy (nrows a)) (min ex (ncols a) - min sx (ncols a))
       (\<lambda>i j. cell_at a (sy + i) (sx + j))"

text \<open>
  \<open>a[sy:ey, sx:ex] = src\<close>: the source is broadcast to the shape of the clipped target
  block (an axis of length 1 is repeated); any other mismatch of shapes raises ValueError.
\<close>

definition np_set_slice ::
  "ndarray \<Rightarrow> nat \<Rightarrow> nat \<Rightarrow> nat \<Rightarrow> nat \<Rightarrow> ndarray \<Rightarrow> py_error + ndarray" where
  "np_set_slice a sy ey sx ex src =
     (let tr = min ey (nrows a) - min sy (nrows a);
          tc = min ex (ncols a) - min sx (ncols a)
      in if (nrows src = tr \<or> nrows src = 1) \<and> (ncols src = tc \<or> ncols src = 1)
         then Inr (tabulate2 (nrows a) (ncols a)
                (\<lambda>i j. if sy \<le> i \<and> i < sy + tr \<and> sx \<le> j \<and> j < sx + tc
                       then cell_at src (if nrows src = 1 then 0 else i - sy)
                                   (if ncols src = 1 then 0 else j - sx)
                       else cell_at a i j))
         else Inl ValueError)"

text \<open>Elementwise arithmetic on an array.\<close>

definition map_cells :: "(rat \<Rightarrow> rat) \<Rightarrow> ndarray \<Rightarrow> ndarray" where
  "map_cells f a = a\<lparr>cells := map (map f) (cells a)\<rparr>"

text \<open>\<open>a.flatten()\<close>, row by row.\<close>

definition flatten :: "ndarray \<Rightarrow> rat list" where
  "flatten a = concat (cells a)"

text \<open>
  \<open>min\<close> and \<open>max\<close> of a sequence, and \<open>np.min\<close> and \<open>np.max\<close> of an array: ValueError on an
  empty one.
\<close>

definition py_min :: "rat list \<Rightarrow> py_error + rat" where
  "py_min xs = (case xs of [] \<Rightarrow> Inl ValueError | x # xs' \<Rightarrow> Inr (fold min xs' x))"

definition py_max :: "rat list \<Rightarrow> py_error + rat" where
  "py_max xs = (case xs of [] \<Rightarrow> Inl ValueError | x # xs' \<Rightarrow> Inr (fold max xs' x))"

definition np_min :: "ndarray \<Rightarrow> py_error + rat" where
  "np_min a = py_min (flatten a)"

definition np_max :: "ndarray \<Rightarrow> py_error + rat" where
  "np_max a = py_max (flatten a)"


section \<open>Sector directory and mosaic\<close>

subsection \<open>\<open>load_sectors_from_directory\<close>\<close>

text \<open>
  \<open>sectors_data\<close> is a dictionary from sector number to grid: an association list, looked
  up with \<open>map_of\<close> and updated in place. A directory entry matched by \<open>sd*.csdat\<close> is given
  by the result of \<open>int(filename[2:-6])\<close> (\<open>None\<close> when it raises ValueError) and the
  file's content. \<open>load_single_sector\<close> is called with its default \<open>grid_size\<close>, 65.
\<close>

type_synonym sectors = "(int \<times> ndarray) list"

fun load_files :: "(int option \<times> byte list) list \<Rightarrow> sectors \<Rightarrow> sectors" where
  "load_files [] sectors_data = sectors_data"
| "load_files ((parsed, file_content) # files) sectors_data =
     (case parsed of
        None \<Rightarrow> load_files files sectors_data
      | Some sector_num \<Rightarrow>
          (case load_single_sector file_content 65 of
             Inl e \<Rightarrow> load_files files sectors_data
           | Inr height_data \<Rightarrow>
               load_files files (AList.update sector_num height_data sectors_data)))"

definition load_sectors_from_directory ::
  "(int option \<times> byte list) list \<Rightarrow> nat \<Rightarrow> nat \<Rightarrow> sectors" where
  "load_sectors_from_directory directory sectors_x sectors_y = load_files directory []"

subsection \<open>\<open>create_combined_heightmap\<close>\<close>

text \<open>The inner loop over \<open>col\<close>, for a fixed \<open>display_row\<close>.\<close>

fun place_cols ::
  "sectors \<Rightarrow> nat \<Rightarrow> nat \<Rightarrow> nat \<Rightarrow> nat \<Rightarrow> nat list \<Rightarrow> ndarray \<Rightarrow> py_error + ndarray" where
  "place_cols sectors_data sectors_x sectors_y grid_size display_row [] combined_map =
     Inr combined_map"
| "place_cols sectors_data sectors_x sectors_y grid_size display_row (col # cols) combined_map =
     (let sector_row = sectors_y - 1 - display_row;
          sector_index = sector_row * sectors_x + col
      in case map_of sectors_data (int sector_index) of
           None \<Rightarrow>
             place_cols sectors_data sectors_x sectors_y grid_size display_row cols combined_map
         | Some sector \<Rightarrow>
             (let start_y = display_row * grid_size;
                  end_y = start_y + grid_size;
                  start_x = col * grid_size;
                  end_x = start_x + grid_size;
                  flipped_sector = np_flipud sector
              in case np_set_slice combined_map start_y end_y start_x end_x flipped_sector of
                   Inl e \<Rightarrow> Inl e
                 | Inr combined_map' \<Rightarrow>
                     place_cols sectors_data sectors_x sectors_y grid_size display_row cols
                       combined_map'))"

fun place_rows ::
  "sectors \<Rightarrow> nat \<Rightarrow> nat \<Rightarrow> nat \<Rightarrow> nat list \<Rightarrow> ndarray \<Rightarrow> py_error + ndarray" where
  "place_rows sectors_data sectors_x sectors_y grid_size [] combined_map = Inr combined_map"
| "place_rows sectors_data sectors_x sectors_y grid_size (display_row # rows) combined_map =
     (case place_cols sectors_data sectors_x sectors_y grid_size display_row [0..<sectors_x]
             combined_map of
        Inl e \<Rightarrow> Inl e
      | Inr combined_map' \<Rightarrow>
          place_rows sectors_data sectors_x sectors_y grid_size rows combined_map')"

text \<open>The zero array and the placement of the sectors (up to the rotation).\<close>

definition place_sectors :: "sectors \<Rightarrow> nat \<Rightarrow> nat \<Rightarrow> nat \<Rightarrow> py_error + ndarray" where
  "place_sectors sectors_data sectors_x sectors_y grid_size =
     (let total_width = sectors_x * grid_size;
          total_height = sectors_y * grid_size;
          combined_map = np_zeros total_height total_width
      in place_rows sectors_data sectors_x sectors_y grid_size [0..<sectors_y] combined_map)"

text \<open>The whole function: placement, quarter turn counter-clockwise, left-right flip.\<close>

definition create_combined_heightmap ::
  "sectors \<Rightarrow> nat \<Rightarrow> nat \<Rightarrow> nat \<Rightarrow> py_error + ndarray" where
  "create_combined_heightmap sectors_data sectors_x sectors_y grid_size =
     (case place_sectors sectors_data sectors_x sectors_y grid_size of
        Inl e \<Rightarrow> Inl e
      | Inr combined_map \<Rightarrow> Inr (np_fliplr (np_rot90 combined_map 1)))"

section \<open>Normalisation and export\<close>

subsection \<open>\<open>numpy_to_blender_image\<close>\<close>

text \<open>The normalisation to the range from 0 to 1.\<close>

definition normalize :: "ndarray \<Rightarrow> py_error + ndarray" where
  "normalize numpy_array =
     (case np_min numpy_array of
        Inl e \<Rightarrow> Inl e
      | Inr min_val \<Rightarrow>
          (case np_max numpy_array of
             Inl e \<Rightarrow> Inl e
           | Inr max_val \<Rightarrow>
               if max_val > min_val
               then Inr (map_cells (\<lambda>v. (v - min_val) / (max_val - min_val)) numpy_array)
               else Inr (np_zeros_like numpy_array)))"

text \<open>
  The image is given by the array that fills its red, green and blue channels; the
  conversion to 32-bit floats and the Blender image itself are not modelled.
\<close>

definition numpy_to_blender_image :: "ndarray \<Rightarrow> bool \<Rightarrow> py_error + ndarray" where
  "numpy_to_blender_image numpy_array rotate_texture =
     normalize (if rotate_texture then np_rot90 numpy_array 1 else numpy_array)"

subsection \<open>\<open>TERRAIN_OT_export.execute\<close>\<close>

text \<open>The three steps that undo the display transformations.\<close>

definition undo_display_transforms :: "ndarray \<Rightarrow> ndarray" where
  "undo_display_transforms edited_array =
     np_rot90 (np_fliplr (np_rot90 edited_array (- 1))) (- 1)"

definition denormalize :: "ndarray \<Rightarrow> rat \<Rightarrow> rat \<Rightarrow> ndarray" where
  "denormalize edited_array original_min original_max =
     (if original_max > original_min
      then map_cells (\<lambda>p. p * (original_max - original_min) + original_min) edited_array
      else map_cells (\<lambda>p. p * original_max) edited_array)"

text \<open>The block of the sector shown at \<open>display_row\<close>, \<open>col\<close>.\<close>

definition sector_block :: "ndarray \<Rightarrow> nat \<Rightarrow> nat \<Rightarrow> nat \<Rightarrow> ndarray" where
  "sector_block denormalized grid_size display_row col =
     (let start_y = display_row * grid_size;
          end_y = start_y + grid_size;
          start_x = col * grid_size;
          end_x = start_x + grid_size
      in np_slice denormalized start_y end_y start_x end_x)"

text \<open>
  The sector files of the directory, by sector index (\<open>sd<index>.csdat\<close>): a file exists
  when the map is defined there. The loops write every existing file and count.
\<close>

record export_state =
  files :: "int \<rightharpoonup> byte list"
  sectors_written :: nat
  sectors_failed :: nat

fun export_cols ::
  "ndarray \<Rightarrow> nat \<Rightarrow> nat \<Rightarrow> nat \<Rightarrow> nat \<Rightarrow> nat list \<Rightarrow> export_state \<Rightarrow> export_state" where
  "export_cols denormalized sectors_x sectors_y grid_size display_row [] st = st"
| "export_cols denormalized sectors_x sectors_y grid_size display_row (col # cols) st =
     (let sector_row = sectors_y - 1 - display_row;
          sector_index = sector_row * sectors_x + col;
          sector_data = sector_block denormalized grid_size display_row col
      in case files st (int sector_index) of
           None \<Rightarrow> export_cols denormalized sectors_x sectors_y grid_size display_row cols st
         | Some file_content \<Rightarrow>
             (case write_sector_to_file file_content sector_data grid_size of
                Inr file_content' \<Rightarrow>
                  export_cols denormalized sectors_x sectors_y grid_size display_row cols
                    (st\<lparr>files := (files st)(int sector_index \<mapsto> file_content'),
                        sectors_written := sectors_written st + 1\<rparr>)
              | Inl e \<Rightarrow>
                  export_cols denormalized sectors_x sectors_y grid_size display_row cols
                    (st\<lparr>sectors_failed := sectors_failed st + 1\<rparr>)))"

fun export_rows ::
  "ndarray \<Rightarrow> nat \<Rightarrow> nat \<Rightarrow> nat \<Rightarrow> nat list \<Rightarrow> export_state \<Rightarrow> export_state" where
  "export_rows denormalized sectors_x sectors_y grid_size [] st = st"
| "export_rows denormalized sectors_x sectors_y grid_size (display_row # rows) st =
     export_rows denormalized sectors_x sectors_y grid_size rows
       (export_cols denormalized sectors_x sectors_y grid_size display_row [0..<sectors_x] st)"

text \<open>
  The operator, from the edited image (its red channel) to the files written and the two
  counters. The minimum and maximum are those of the loaded sectors.
\<close>

definition export_execute ::
  "sectors \<Rightarrow> (int \<rightharpoonup> byte list) \<Rightarrow> ndarray \<Rightarrow> nat \<Rightarrow> nat \<Rightarrow> nat \<Rightarrow> py_error + export_state" where
  "export_execute sectors_data directory edited_image sectors_x sectors_y grid_size =
     (let edited_array = undo_display_transforms edited_image;
          all_heights = concat (map (\<lambda>(k, sector_data). flatten sector_data) sectors_data)
      in case py_min all_heights of
           Inl e \<Rightarrow> Inl e
         | Inr original_min \<Rightarrow>
             (case py_max all_heights of
                Inl e \<Rightarrow> Inl e
              | Inr original_max \<Rightarrow>
                  Inr (export_rows (denormalize edited_array original_min original_max)
                         sectors_x sectors_y grid_size [0..<sectors_y]
                         \<lparr>files = directory, sectors_written = 0, sectors_failed = 0\<rparr>)))"


section \<open>Auxiliary notions for the proofs\<close>

text \<open>
  \<open>sample t i\<close> is the value decoded from cell \<open>i\<close> of the stream \<open>t\<close>, \<open>window\<close> the part
  of the file that \<open>load_single_sector\<close> reads, \<open>cell_pos\<close> the file offset of a cell's
  sample and \<open>clamp16\<close> the integer the encoder stores for a height.
\<close>

definition sample :: "byte list \<Rightarrow> nat \<Rightarrow> rat" where
  "sample t i = of_int (from_bytes_little [t ! (4 * i), t ! (4 * i + 1)]) / 128"

definition cell_pos :: "nat \<Rightarrow> nat \<Rightarrow> nat \<Rightarrow> nat" where
  "cell_pos g y x = 708 + (y * g + x) * 4"

definition clamp16 :: "rat \<Rightarrow> int" where
  "clamp16 h = max 0 (min 65535 (py_int (h * 128)))"

definition window :: "byte list \<Rightarrow> byte list" where
  "window bs = take 16900 (drop 708 bs)"

text \<open>
  \<open>slot_sector\<close> is the sector shown at a display position, if it was loaded;
  \<open>sectors_fit\<close> says that every sector shown somewhere is a square grid of the grid size.
\<close>

definition slot_sector :: "sectors \<Rightarrow> nat \<Rightarrow> nat \<Rightarrow> nat \<Rightarrow> nat \<Rightarrow> ndarray option" where
  "slot_sector sd X Y display_row col = map_of sd (int ((Y - 1 - display_row) * X + col))"

definition sectors_fit :: "sectors \<Rightarrow> nat \<Rightarrow> nat \<Rightarrow> nat \<Rightarrow> bool" where
  "sectors_fit sd X Y g \<longleftrightarrow>
     (\<forall>dr<Y. \<forall>c<X. \<forall>s. slot_sector sd X Y dr c = Some s \<longrightarrow>
        shape_ok s \<and> nrows s = g \<and> ncols s = g)"


section \<open>Properties of the codec\<close>

lemma take2_drop: "k + 2 \<le> length t \<Longrightarrow> take 2 (drop k t) = [t ! k, t ! (k + 1)]"
proof -
  assume a: "k + 2 \<le> length t"
  have "take 2 (drop k t) = take (Suc (Suc 0)) (drop k t)" by (simp add: numeral_2_eq_2)
  also have "\<dots> = [t ! k, t ! (k + 1)]"
    using a by (simp add: take_Suc_conv_app_nth)
  finally show ?thesis .
qed

lemma read_row_step:
  "2 \<le> length s \<Longrightarrow>
   read_row (Suc n) s row =
   read_row n (drop 4 s) (row @ [of_int (from_bytes_little (take 2 s)) / 128])"
  by (simp add: Let_def)

lemma read_row_stop: "length s < 2 \<Longrightarrow> read_row (Suc n) s row = (row, [])"
  by (simp add: Let_def)

lemma read_row_full:
  "4 * (k + n) \<le> length t + 2 \<Longrightarrow>
   read_row n (drop (4 * k) t) row = (row @ map (sample t) [k..<k + n], drop (4 * (k + n)) t)"
proof (induction n arbitrary: k row)
  case 0
  then show ?case by simp
next
  case (Suc n)
  have len: "4 * k + 2 \<le> length t" using Suc.prems by simp
  have tk: "take 2 (drop (4 * k) t) = [t ! (4 * k), t ! (4 * k + 1)]"
    using len by (rule take2_drop)
  have step: "read_row (Suc n) (drop (4 * k) t) row =
      read_row n (drop 4 (drop (4 * k) t))
        (row @ [of_int (from_bytes_little (take 2 (drop (4 * k) t))) / 128])"
    by (rule read_row_step) (use len in simp)
  have "4 + 4 * k = 4 * Suc k" by simp
  then have d4: "drop 4 (drop (4 * k) t) = drop (4 * Suc k) t"
    by (simp only: drop_drop)
  have smp: "of_int (from_bytes_little (take 2 (drop (4 * k) t))) / 128 = sample t k"
    by (simp only: tk sample_def)
  have ih: "read_row n (drop (4 * Suc k) t) (row @ [sample t k]) =
            ((row @ [sample t k]) @ map (sample t) [Suc k..<Suc k + n], drop (4 * (Suc k + n)) t)"
    using Suc.prems by (intro Suc.IH) simp
  have lst: "(row @ [sample t k]) @ map (sample t) [Suc k..<Suc k + n] =
             row @ map (sample t) [k..<k + Suc n]"
    by (simp add: upt_conv_Cons del: upt_Suc)
  have idx: "Suc k + n = k + Suc n" by simp
  show ?case
    by (simp only: step d4 smp ih lst) (simp only: idx)
qed

lemma read_rows_full:
  "4 * (k + m * g) \<le> length t + 2 \<Longrightarrow>
   read_rows m g (drop (4 * k) t) =
   map (\<lambda>y. map (sample t) [k + y * g..<k + y * g + g]) [0..<m]"
proof (induction m arbitrary: k)
  case 0
  then show ?case by simp
next
  case (Suc m)
  have "4 * (k + g) \<le> length t + 2" using Suc.prems by simp
  then have row: "read_row g (drop (4 * k) t) [] = ([] @ map (sample t) [k..<k + g], drop (4 * (k + g)) t)"
    by (rule read_row_full)
  have "4 * ((k + g) + m * g) \<le> length t + 2" using Suc.prems by (simp add: algebra_simps)
  then have ih: "read_rows m g (drop (4 * (k + g)) t) =
     map (\<lambda>y. map (sample t) [(k + g) + y * g..<(k + g) + y * g + g]) [0..<m]"
    by (rule Suc.IH)
  have shift: "map (\<lambda>y. map (sample t) [k + y * g..<k + y * g + g]) [0..<Suc m] =
     map (sample t) [k..<k + g] #
     map (\<lambda>y. map (sample t) [(k + g) + y * g..<(k + g) + y * g + g]) [0..<m]"
  proof -
    have "[0..<Suc m] = 0 # map Suc [0..<m]"
      by (simp add: upt_conv_Cons map_Suc_upt del: upt_Suc)
    then show ?thesis by (simp add: comp_def algebra_simps del: upt_Suc)
  qed
  show ?case
    by (simp only: read_rows.simps row ih shift append_Nil prod.case)
qed

lemma to_bytes2_clamp16:
  "to_bytes2_little (clamp16 h) = Inr [word_of_int (clamp16 h), word_of_int (clamp16 h div 256)]"
  by (simp add: to_bytes2_little_def clamp16_def)

lemma set_slice2_length:
  "pos + 2 \<le> length fc \<Longrightarrow> length (set_slice2 fc pos [b0, b1]) = length fc"
  by (simp add: set_slice2_def)

lemma set_slice2_nth:
  assumes "pos + 2 \<le> length fc" "p < length fc"
  shows "set_slice2 fc pos [b0, b1] ! p =
         (if p = pos then b0 else if p = pos + 1 then b1 else fc ! p)"
proof -
  consider "p < pos" | "p = pos" | "p = pos + 1" | "pos + 2 \<le> p" by linarith
  then show ?thesis
  proof cases
    case 1
    then show ?thesis using assms by (simp add: set_slice2_def nth_append)
  next
    case 2
    then show ?thesis using assms by (simp add: set_slice2_def nth_append)
  next
    case 3
    then show ?thesis using assms by (simp add: set_slice2_def nth_append)
  next
    case 4
    then have "p - pos = Suc (Suc (p - (pos + 2)))" and "Suc (Suc (p - 2)) = p" by simp_all
    then show ?thesis using assms 4 by (simp add: set_slice2_def nth_append)
  qed
qed

lemma write_row_Cons_Inr:
  assumes "write_row hf g y (x # xs) fc = Inr out"
  shows "y < nrows hf \<and> x < ncols hf \<and>
         write_row hf g y xs
           (set_slice2 fc (cell_pos g y x)
              [word_of_int (clamp16 (cells hf ! y ! x)),
               word_of_int (clamp16 (cells hf ! y ! x) div 256)]) = Inr out"
proof (cases "y < nrows hf \<and> x < ncols hf")
  case True
  then have g: "getitem2 hf y x = Inr (cells hf ! y ! x)" by (simp add: getitem2_def)
  show ?thesis
    using assms True to_bytes2_clamp16 [of "cells hf ! y ! x"]
    by (simp add: g Let_def cell_pos_def clamp16_def)
next
  case False
  then have "getitem2 hf y x = Inl IndexError" by (auto simp: getitem2_def)
  then show ?thesis using assms by simp
qed

lemma write_row_effect:
  assumes "write_row hf g y xs fc = Inr out"
    and "\<forall>x\<in>set xs. cell_pos g y x + 2 \<le> length fc"
  shows "length out = length fc
       \<and> (\<forall>p<length fc. (\<forall>x\<in>set xs. p \<noteq> cell_pos g y x \<and> p \<noteq> cell_pos g y x + 1) \<longrightarrow> out ! p = fc ! p)
       \<and> (distinct xs \<longrightarrow> (\<forall>x\<in>set xs.
              out ! cell_pos g y x = word_of_int (clamp16 (cells hf ! y ! x))
            \<and> out ! (cell_pos g y x + 1) = word_of_int (clamp16 (cells hf ! y ! x) div 256)))"
  using assms
proof (induction xs arbitrary: fc)
  case Nil
  then show ?case by simp
next
  case (Cons x xs)
  let ?b0 = "word_of_int (clamp16 (cells hf ! y ! x)) :: byte"
  let ?b1 = "word_of_int (clamp16 (cells hf ! y ! x) div 256) :: byte"
  let ?fc1 = "set_slice2 fc (cell_pos g y x) [?b0, ?b1]"
  have run: "write_row hf g y xs ?fc1 = Inr out"
    using write_row_Cons_Inr [OF Cons.prems(1)] by simp
  have px: "cell_pos g y x + 2 \<le> length fc" using Cons.prems(2) by simp
  have len1: "length ?fc1 = length fc" using px by (rule set_slice2_length)
  have pre: "\<forall>x'\<in>set xs. cell_pos g y x' + 2 \<le> length ?fc1"
    using Cons.prems(2) len1 by simp
  note ih = Cons.IH [OF run pre]
  have L: "length out = length fc" using ih len1 by simp
  have F: "\<forall>p<length fc. (\<forall>x'\<in>set (x # xs). p \<noteq> cell_pos g y x' \<and> p \<noteq> cell_pos g y x' + 1)
              \<longrightarrow> out ! p = fc ! p"
  proof (intro allI impI)
    fix p assume p: "p < length fc"
      and np: "\<forall>x'\<in>set (x # xs). p \<noteq> cell_pos g y x' \<and> p \<noteq> cell_pos g y x' + 1"
    have "out ! p = ?fc1 ! p" using ih p np len1 by simp
    also have "\<dots> = fc ! p" using set_slice2_nth [OF px p] np by simp
    finally show "out ! p = fc ! p" .
  qed
  have V: "distinct (x # xs) \<longrightarrow> (\<forall>x'\<in>set (x # xs).
              out ! cell_pos g y x' = word_of_int (clamp16 (cells hf ! y ! x'))
            \<and> out ! (cell_pos g y x' + 1) = word_of_int (clamp16 (cells hf ! y ! x') div 256))"
  proof (intro impI ballI)
    fix x' assume d: "distinct (x # xs)" and x': "x' \<in> set (x # xs)"
    show "out ! cell_pos g y x' = word_of_int (clamp16 (cells hf ! y ! x'))
            \<and> out ! (cell_pos g y x' + 1) = word_of_int (clamp16 (cells hf ! y ! x') div 256)"
    proof (cases "x' = x")
      case True
      have nx: "\<forall>z\<in>set xs. z \<noteq> x" using d by auto
      have a: "\<forall>z\<in>set xs. cell_pos g y x \<noteq> cell_pos g y z \<and> cell_pos g y x \<noteq> cell_pos g y z + 1"
        using nx by (auto simp: cell_pos_def)
      have b: "\<forall>z\<in>set xs. cell_pos g y x + 1 \<noteq> cell_pos g y z \<and> cell_pos g y x + 1 \<noteq> cell_pos g y z + 1"
        using nx by (auto simp: cell_pos_def)
      have p0: "cell_pos g y x < length fc" and p1: "cell_pos g y x + 1 < length fc"
        using px by simp_all
      have "out ! cell_pos g y x = ?fc1 ! cell_pos g y x" using ih a p0 len1 by simp
      also have "\<dots> = ?b0" using set_slice2_nth [OF px p0] by simp
      finally have r0: "out ! cell_pos g y x = ?b0" .
      have "out ! (cell_pos g y x + 1) = ?fc1 ! (cell_pos g y x + 1)" using ih b p1 len1 by simp
      also have "\<dots> = ?b1" using set_slice2_nth [OF px p1] by simp
      finally have r1: "out ! (cell_pos g y x + 1) = ?b1" .
      show ?thesis using True r0 r1 by simp
    next
      case False
      then have "x' \<in> set xs" using x' by simp
      moreover have "distinct xs" using d by simp
      ultimately show ?thesis using ih by simp
    qed
  qed
  show ?case using L F V by blast
qed


lemma idx_inj:
  fixes x g x' y y' :: nat
  assumes "x < g" "x' < g" "y * g + x = y' * g + x'"
  shows "y = y' \<and> x = x'"
proof -
  have "(y * g + x) div g = y" "(y' * g + x') div g = y'" using assms(1,2) by simp_all
  then have "y = y'" using assms(3) by simp
  then show ?thesis using assms(3) by simp
qed

lemma cell_pos_disj:
  assumes "x < g" "x' < g" "y \<noteq> y'"
  shows "cell_pos g y x \<noteq> cell_pos g y' x' \<and> cell_pos g y x \<noteq> cell_pos g y' x' + 1
       \<and> cell_pos g y x + 1 \<noteq> cell_pos g y' x'"
proof -
  have "y * g + x \<noteq> y' * g + x'" using idx_inj [OF assms(1,2)] assms(3) by blast
  then show ?thesis unfolding cell_pos_def by arith
qed

lemma write_rows_Cons_Inr:
  assumes "write_rows hf g (y # ys) fc = Inr out"
  shows "\<exists>fc1. write_row hf g y [0..<g] fc = Inr fc1 \<and> write_rows hf g ys fc1 = Inr out"
  using assms by (cases "write_row hf g y [0..<g] fc") simp_all

lemma write_rows_effect:
  assumes "write_rows hf g ys fc = Inr out"
    and "\<forall>y\<in>set ys. \<forall>x<g. cell_pos g y x + 2 \<le> length fc"
  shows "length out = length fc
       \<and> (\<forall>p<length fc. (\<forall>y\<in>set ys. \<forall>x<g. p \<noteq> cell_pos g y x \<and> p \<noteq> cell_pos g y x + 1)
             \<longrightarrow> out ! p = fc ! p)
       \<and> (distinct ys \<longrightarrow> (\<forall>y\<in>set ys. \<forall>x<g.
              out ! cell_pos g y x = word_of_int (clamp16 (cells hf ! y ! x))
            \<and> out ! (cell_pos g y x + 1) = word_of_int (clamp16 (cells hf ! y ! x) div 256)))"
  using assms
proof (induction ys arbitrary: fc)
  case Nil
  then show ?case by simp
next
  case (Cons y ys)
  obtain fc1 where row: "write_row hf g y [0..<g] fc = Inr fc1"
    and rest: "write_rows hf g ys fc1 = Inr out"
    using write_rows_Cons_Inr [OF Cons.prems(1)] by blast
  have prow: "\<forall>x\<in>set [0..<g]. cell_pos g y x + 2 \<le> length fc"
    using Cons.prems(2) by simp
  note re = write_row_effect [OF row prow]
  have len1: "length fc1 = length fc" using re by simp
  have pre: "\<forall>y'\<in>set ys. \<forall>x<g. cell_pos g y' x + 2 \<le> length fc1"
    using Cons.prems(2) len1 by simp
  note ih = Cons.IH [OF rest pre]
  have L: "length out = length fc" using ih len1 by simp
  have F: "\<forall>p<length fc. (\<forall>y'\<in>set (y # ys). \<forall>x<g. p \<noteq> cell_pos g y' x \<and> p \<noteq> cell_pos g y' x + 1)
             \<longrightarrow> out ! p = fc ! p"
  proof (intro allI impI)
    fix p assume p: "p < length fc"
      and np: "\<forall>y'\<in>set (y # ys). \<forall>x<g. p \<noteq> cell_pos g y' x \<and> p \<noteq> cell_pos g y' x + 1"
    have "out ! p = fc1 ! p" using ih p np len1 by simp
    also have "\<dots> = fc ! p" using re p np by simp
    finally show "out ! p = fc ! p" .
  qed
  have V: "distinct (y # ys) \<longrightarrow> (\<forall>y'\<in>set (y # ys). \<forall>x<g.
              out ! cell_pos g y' x = word_of_int (clamp16 (cells hf ! y' ! x))
            \<and> out ! (cell_pos g y' x + 1) = word_of_int (clamp16 (cells hf ! y' ! x) div 256))"
  proof (intro impI ballI allI)
    fix y' x assume d: "distinct (y # ys)" and y': "y' \<in> set (y # ys)" and x: "x < g"
    show "out ! cell_pos g y' x = word_of_int (clamp16 (cells hf ! y' ! x))
            \<and> out ! (cell_pos g y' x + 1) = word_of_int (clamp16 (cells hf ! y' ! x) div 256)"
    proof (cases "y' = y")
      case True
      have ny: "\<forall>z\<in>set ys. y \<noteq> z" using d by auto
      have a: "\<forall>z\<in>set ys. \<forall>x'<g. cell_pos g y x \<noteq> cell_pos g z x' \<and> cell_pos g y x \<noteq> cell_pos g z x' + 1"
        using ny x cell_pos_disj [of x g] by blast
      have b: "\<forall>z\<in>set ys. \<forall>x'<g. cell_pos g y x + 1 \<noteq> cell_pos g z x' \<and> cell_pos g y x + 1 \<noteq> cell_pos g z x' + 1"
        using ny x cell_pos_disj [of x g] by (metis add_right_cancel)
      have px: "cell_pos g y x + 2 \<le> length fc" using Cons.prems(2) x by simp
      then have p0: "cell_pos g y x < length fc" and p1: "cell_pos g y x + 1 < length fc"
        by simp_all
      have xin: "x \<in> set [0..<g]" using x by simp
      have "out ! cell_pos g y x = fc1 ! cell_pos g y x" using ih a p0 len1 by simp
      also have "\<dots> = word_of_int (clamp16 (cells hf ! y ! x))" using re xin by simp
      finally have r0: "out ! cell_pos g y x = word_of_int (clamp16 (cells hf ! y ! x))" .
      have "out ! (cell_pos g y x + 1) = fc1 ! (cell_pos g y x + 1)" using ih b p1 len1 by simp
      also have "\<dots> = word_of_int (clamp16 (cells hf ! y ! x) div 256)" using re xin by simp
      finally have r1: "out ! (cell_pos g y x + 1) = word_of_int (clamp16 (cells hf ! y ! x) div 256)" .
      show ?thesis using True r0 r1 by simp
    next
      case False
      then have "y' \<in> set ys" using y' by simp
      moreover have "distinct ys" using d by simp
      ultimately show ?thesis using ih x by simp
    qed
  qed
  show ?case using L F V by blast
qed

lemma write_row_succeeds:
  assumes "y < nrows hf" "\<forall>x\<in>set xs. x < ncols hf"
  shows "\<exists>out. write_row hf g y xs fc = Inr out"
  using assms
proof (induction xs arbitrary: fc)
  case Nil
  then show ?case by simp
next
  case (Cons x xs)
  have g: "getitem2 hf y x = Inr (cells hf ! y ! x)"
    using Cons.prems by (simp add: getitem2_def)
  have "\<exists>out. write_row hf g y xs
           (set_slice2 fc (cell_pos g y x)
              [word_of_int (clamp16 (cells hf ! y ! x)),
               word_of_int (clamp16 (cells hf ! y ! x) div 256)]) = Inr out"
    using Cons.prems by (intro Cons.IH) simp_all
  then show ?case
    using to_bytes2_clamp16 [of "cells hf ! y ! x"]
    by (simp add: g Let_def cell_pos_def clamp16_def)
qed

lemma write_rows_succeeds:
  assumes "\<forall>y\<in>set ys. y < nrows hf" "g \<le> ncols hf"
  shows "\<exists>out. write_rows hf g ys fc = Inr out"
  using assms
proof (induction ys arbitrary: fc)
  case Nil
  then show ?case by simp
next
  case (Cons y ys)
  have "\<exists>fc1. write_row hf g y [0..<g] fc = Inr fc1"
    using Cons.prems by (intro write_row_succeeds) auto
  then obtain fc1 where r: "write_row hf g y [0..<g] fc = Inr fc1" by blast
  have "\<exists>out. write_rows hf g ys fc1 = Inr out"
    using Cons.prems by (intro Cons.IH) simp_all
  then show ?case using r by simp
qed

lemma np_array_Inr_cells: "np_array rows = Inr a \<Longrightarrow> cells a = rows"
  by (auto simp: np_array_def split: list.splits if_splits)

lemma np_array_rect:
  "length rows = r \<Longrightarrow> list_all (\<lambda>x. length x = c) rows \<Longrightarrow> (r = 0 \<longrightarrow> c = 0) \<Longrightarrow>
   np_array rows = Inr \<lparr>nrows = r, ncols = c, cells = rows\<rparr>"
  by (cases rows) (auto simp: np_array_def)

lemma np_array_ragged:
  "r' \<in> set rs \<Longrightarrow> length r' \<noteq> length r \<Longrightarrow> np_array (r # rs) = Inl ValueError"
  by (auto simp: np_array_def list_all_iff)

lemma read_row_len_ge: "length acc \<le> length (fst (read_row n s acc))"
proof (induction n arbitrary: s acc)
  case 0
  then show ?case by simp
next
  case (Suc n)
  show ?case
  proof (cases "length s < 2")
    case True
    then show ?thesis by (simp add: read_row_stop)
  next
    case False
    then have "2 \<le> length s" by simp
    then show ?thesis
      using Suc.IH [of "acc @ [of_int (from_bytes_little (take 2 s)) / 128]" "drop 4 s"]
      by (simp only: read_row_step) simp
  qed
qed

lemma read_row_first:
  "2 \<le> length s \<Longrightarrow> fst (read_row (Suc n) s []) \<noteq> []"
proof -
  assume a: "2 \<le> length s"
  have "length [of_int (from_bytes_little (take 2 s)) / 128 :: rat]
        \<le> length (fst (read_row n (drop 4 s) [of_int (from_bytes_little (take 2 s)) / 128]))"
    by (rule read_row_len_ge)
  then show ?thesis using a by (simp only: read_row_step append_Nil) auto
qed

lemma read_row_count:
  "read_row n s acc = (row, s') \<Longrightarrow>
   length acc \<le> length row \<and> length row \<le> length acc + n \<and>
   (4 * (length row - length acc) + length s' = length s \<and> length row = length acc + n
    \<or> s' = [] \<and> 4 * (length row - length acc) \<le> length s + 2)"
proof (induction n arbitrary: s acc)
  case 0
  then show ?case by auto
next
  case (Suc n)
  show ?case
  proof (cases "length s < 2")
    case True
    then show ?thesis using Suc.prems by (simp add: read_row_stop)
  next
    case False
    then have two: "2 \<le> length s" by simp
    let ?acc = "acc @ [of_int (from_bytes_little (take 2 s)) / 128]"
    have run: "read_row n (drop 4 s) ?acc = (row, s')"
      using Suc.prems two by (simp only: read_row_step)
    note ih = Suc.IH [OF run]
    have la: "length ?acc = Suc (length acc)" by simp
    have lr: "Suc (length acc) \<le> length row" "length row \<le> length acc + Suc n"
      using ih by simp_all
    then have A: "length acc \<le> length row" by simp
    have d: "4 * (length row - Suc (length acc)) + length s' = length s - 4 \<and> length row = Suc (length acc) + n
       \<or> length s' = 0 \<and> 4 * (length row - Suc (length acc)) \<le> length s - 4 + 2"
      using ih by simp
    obtain c where c: "length row = Suc (length acc) + c"
      using lr(1) by (metis le_iff_add)
    have c1: "length row - Suc (length acc) = c" and c2: "length row - length acc = Suc c"
      using c by simp_all
    have d': "4 * c + length s' = length s - 4 \<and> c = n
       \<or> length s' = 0 \<and> 4 * c \<le> length s - 4 + 2"
      using d c by (simp add: c1)
    have "4 * Suc c + length s' = length s \<and> c = n
    \<or> length s' = 0 \<and> 4 * Suc c \<le> length s + 2"
    proof (cases "4 \<le> length s")
      case True
      then show ?thesis using d' by auto
    next
      case False
      then have z: "length s - 4 = 0" by simp
      from d' have "c = 0 \<and> length s' = 0" unfolding z by auto
      then show ?thesis using two by simp
    qed
    then have "4 * (length row - length acc) + length s' = length s \<and> length row = length acc + Suc n
    \<or> length s' = 0 \<and> 4 * (length row - length acc) \<le> length s + 2"
      unfolding c2 using c by auto
    then have B: "4 * (length row - length acc) + length s' = length s \<and> length row = length acc + Suc n
    \<or> s' = [] \<and> 4 * (length row - length acc) \<le> length s + 2"
      by simp
    show ?thesis using A lr(2) B by blast
  qed
qed

lemma read_row_Nil: "read_row n [] acc = (acc, [])"
  by (cases n) (simp_all add: read_row_stop)

lemma read_rows_Nil: "read_rows m g [] = replicate m []"
  by (induction m) (simp_all add: read_row_Nil)

lemma read_rows_count:
  "4 * sum_list (map length (read_rows m g s)) \<le> length s + 2"
proof (induction m arbitrary: s)
  case 0
  then show ?case by simp
next
  case (Suc m)
  obtain row s' where r: "read_row g s [] = (row, s')" by (cases "read_row g s []")
  note c = read_row_count [OF r]
  have ih: "4 * sum_list (map length (read_rows m g s')) \<le> length s' + 2" by (rule Suc.IH)
  have eq: "sum_list (map length (read_rows (Suc m) g s)) =
        length row + sum_list (map length (read_rows m g s'))"
    by (simp add: r)
  from c have "4 * length row + length s' = length s \<or> s' = [] \<and> 4 * length row \<le> length s + 2"
    by auto
  then show ?case
  proof
    assume "4 * length row + length s' = length s"
    then show ?thesis using ih eq by simp
  next
    assume b: "s' = [] \<and> 4 * length row \<le> length s + 2"
    then have "length s' = 0" by simp
    then have "sum_list (map length (read_rows m g s')) = 0" using ih by linarith
    then show ?thesis using b eq by linarith
  qed
qed

lemma read_rows_length: "length (read_rows m g s) = m"
  by (induction m arbitrary: s) (auto split: prod.splits)

lemma byte256: "(256 :: byte) = 0"
  by simp

lemma from_bytes_little2_range: "0 \<le> from_bytes_little [a, b] \<and> from_bytes_little [a, b] \<le> 65535"
proof -
  have "uint a < 256" "uint b < 256" using uint_bounded [of a] uint_bounded [of b] by simp_all
  moreover have "0 \<le> uint a" "0 \<le> uint b" by simp_all
  ultimately show ?thesis by simp
qed

lemma word_of_from_bytes2:
  "(word_of_int (from_bytes_little [a, b]) :: byte) = a"
  "(word_of_int (from_bytes_little [a, b] div 256) :: byte) = b"
proof -
  have "(word_of_int (uint a + 256 * uint b) :: byte) = a + 256 * b"
    by simp
  then show "(word_of_int (from_bytes_little [a, b]) :: byte) = a"
    by (simp add: byte256)
  have "uint a < 256" "0 \<le> uint a" using uint_bounded [of a] by simp_all
  then have "(uint a + 256 * uint b) div 256 = uint b" by simp
  then show "(word_of_int (from_bytes_little [a, b] div 256) :: byte) = b" by simp
qed

lemma py_int_sample: "py_int (of_int k / 128 * 128) = k"
  by (simp add: py_int_def)

lemma clamp16_sample: "clamp16 (sample t i) = from_bytes_little [t ! (4 * i), t ! (4 * i + 1)]"
  using from_bytes_little2_range [of "t ! (4 * i)" "t ! (4 * i + 1)"]
  by (simp only: clamp16_def sample_def py_int_sample) simp

lemma enc_sample:
  "(word_of_int (clamp16 (sample t i)) :: byte) = t ! (4 * i)"
  "(word_of_int (clamp16 (sample t i) div 256) :: byte) = t ! (4 * i + 1)"
  by (simp_all only: clamp16_sample word_of_from_bytes2)

lemma idx_bound:
  fixes x y g :: nat
  assumes "y < g" "x < g"
  shows "y * g + x < g * g"
proof -
  have "Suc y * g \<le> g * g" using assms(1) by (intro mult_le_mono1) simp
  then show ?thesis using assms(2) by simp
qed

lemma sum_list_const_length:
  "\<forall>r\<in>set rs. length r = c \<Longrightarrow> sum_list (map length rs) = length rs * c"
  by (induction rs) simp_all

lemma read_rows_short:
  "length s < 2 \<Longrightarrow> 0 < g \<Longrightarrow> read_rows m g s = replicate m []"
proof (cases m)
  case 0
  then show ?thesis by simp
next
  case (Suc m')
  assume a: "length s < 2" "0 < g"
  then obtain g' where g: "g = Suc g'" by (cases g) auto
  have "read_row g s [] = ([], [])" using a(1) unfolding g by (rule read_row_stop)
  then show ?thesis using Suc by (simp add: read_rows_Nil)
qed

lemma load_window: "load_single_sector bs g = np_array (read_rows g g (window bs))"
  by (simp add: load_single_sector_def window_def)

lemma decode_full:
  assumes "4 * (g * g) \<le> length (window bs) + 2"
  shows "load_single_sector bs g =
         Inr \<lparr>nrows = g, ncols = g,
               cells = map (\<lambda>y. map (sample (window bs)) [y * g..<y * g + g]) [0..<g]\<rparr>"
proof -
  let ?t = "window bs"
  have "4 * (0 + g * g) \<le> length ?t + 2" using assms by simp
  from read_rows_full [OF this]
  have rows: "read_rows g g ?t = map (\<lambda>y. map (sample ?t) [y * g..<y * g + g]) [0..<g]"
    by simp
  have "np_array (map (\<lambda>y. map (sample ?t) [y * g..<y * g + g]) [0..<g]) =
        Inr \<lparr>nrows = g, ncols = g, cells = map (\<lambda>y. map (sample ?t) [y * g..<y * g + g]) [0..<g]\<rparr>"
    by (rule np_array_rect) (simp_all add: list_all_iff)
  then show ?thesis by (simp only: load_window rows)
qed

lemma decode_empty:
  assumes "length (window bs) < 2"
  shows "load_single_sector bs g = Inr \<lparr>nrows = g, ncols = 0, cells = replicate g []\<rparr>"
proof (cases "g = 0")
  case True
  then show ?thesis by (simp add: load_single_sector_def np_array_def)
next
  case False
  then have rows: "read_rows g g (window bs) = replicate g []"
    using assms by (intro read_rows_short) simp_all
  have "np_array (replicate g []) = Inr \<lparr>nrows = g, ncols = 0, cells = replicate g []\<rparr>"
    by (rule np_array_rect) (simp_all add: list_all_iff)
  then show ?thesis by (simp only: load_window rows)
qed

lemma decode_ragged:
  assumes two: "2 \<le> length (window bs)" and short: "length (window bs) + 2 < 4 * (g * g)"
  shows "load_single_sector bs g = Inl ValueError"
proof -
  let ?t = "window bs"
  have "g \<noteq> 0" using short by (cases "g = 0") simp_all
  moreover have "g \<noteq> 1" using two short by (cases "g = 1") simp_all
  ultimately obtain m where g: "g = Suc (Suc m)" by (metis One_nat_def not0_implies_Suc)
  obtain row s1 where r: "read_row g ?t [] = (row, s1)" by (cases "read_row g ?t []")
  have rows: "read_rows g g ?t = row # read_rows (Suc m) g s1"
    using r by (simp add: g)
  have ne: "row \<noteq> []" using read_row_first [OF two, of "Suc m"] r by (simp add: g)
  from read_row_count [OF r]
  have "4 * length row + length s1 = length ?t \<and> length row = g \<or> s1 = []" by auto
  then have "\<exists>r'\<in>set (read_rows (Suc m) g s1). length r' \<noteq> length row"
  proof
    assume "s1 = []"
    then have "[] \<in> set (read_rows (Suc m) g s1)" by (simp add: read_rows_Nil)
    then show ?thesis using ne by force
  next
    assume full: "4 * length row + length s1 = length ?t \<and> length row = g"
    show ?thesis
    proof (rule ccontr)
      assume "\<not> ?thesis"
      then have "\<forall>r'\<in>set (read_rows (Suc m) g s1). length r' = g"
        using full by (simp del: read_rows.simps)
      then have "sum_list (map length (read_rows (Suc m) g s1)) = Suc m * g"
        using sum_list_const_length [of "read_rows (Suc m) g s1" g]
        by (simp only: read_rows_length)
      then have "4 * (Suc m * g) \<le> length s1 + 2"
        using read_rows_count [of "Suc m" g s1] by simp
      moreover have "g * g = g + Suc m * g" by (simp add: g)
      ultimately show False using full short by simp
    qed
  qed
  then obtain r' where "r' \<in> set (read_rows (Suc m) g s1)" "length r' \<noteq> length row" by blast
  then have "np_array (row # read_rows (Suc m) g s1) = Inl ValueError"
    by (rule np_array_ragged)
  then show ?thesis by (simp only: load_window rows)
qed

lemma np_flipud_flipud: "np_flipud (np_flipud a) = a"
  by (simp add: np_flipud_def)

lemma window_nth: "j < length (window bs) \<Longrightarrow> window bs ! j = bs ! (708 + j)"
proof -
  assume a: "j < length (window bs)"
  then have "j < length bs - 708" by (simp add: window_def)
  then have "708 \<le> length bs" by linarith
  then show ?thesis using a by (simp add: window_def)
qed

lemma write_sector_rows:
  "write_sector_to_file fc h g = write_rows (np_flipud h) g [0..<g] fc"
  by (simp add: write_sector_to_file_def)

lemma cell_pos_fits:
  assumes "708 + g * g * 4 \<le> length fc" "y < g" "x < g"
  shows "cell_pos g y x + 2 \<le> length fc"
proof -
  have "y * g + x < g * g" using assms(2,3) by (rule idx_bound)
  then show ?thesis using assms(1) by (simp add: cell_pos_def)
qed

lemma read_row_samples:
  "\<forall>v\<in>set acc. P v \<Longrightarrow>
   (\<And>a b. P (of_int (from_bytes_little [a, b]) / 128)) \<Longrightarrow>
   \<forall>v\<in>set (fst (read_row n s acc)). P v"
proof (induction n arbitrary: s acc)
  case 0
  then show ?case by simp
next
  case (Suc n)
  show ?case
  proof (cases "length s < 2")
    case True
    then show ?thesis using Suc.prems(1) by (simp add: read_row_stop)
  next
    case False
    then have two: "2 \<le> length s" by simp
    then have "take 2 s = [s ! 0, s ! 1]" using take2_drop [of 0 s] by simp
    then have "P (of_int (from_bytes_little (take 2 s)) / 128)" using Suc.prems(2) by simp
    then have "\<forall>v\<in>set (acc @ [of_int (from_bytes_little (take 2 s)) / 128]). P v"
      using Suc.prems(1) by simp
    then have "\<forall>v\<in>set (fst (read_row n (drop 4 s)
                 (acc @ [of_int (from_bytes_little (take 2 s)) / 128]))). P v"
      using Suc.prems(2) by (rule Suc.IH)
    then show ?thesis using two by (simp only: read_row_step)
  qed
qed

lemma read_rows_samples:
  assumes "\<And>a b. P (of_int (from_bytes_little [a, b]) / 128)"
  shows "\<forall>row\<in>set (read_rows m g s). \<forall>v\<in>set row. P v"
proof (induction m arbitrary: s)
  case 0
  then show ?case by simp
next
  case (Suc m)
  obtain row s' where r: "read_row g s [] = (row, s')" by (cases "read_row g s []")
  have "\<forall>v\<in>set (fst (read_row g s [])). P v"
  proof (rule read_row_samples)
    show "\<forall>v\<in>set []. P v" by simp
  next
    fix a b show "P (of_int (from_bytes_little [a, b]) / 128)" by (rule assms)
  qed
  then have "\<forall>v\<in>set row. P v" using r by simp
  then show ?case using Suc.IH [of s'] r by simp
qed

lemma sample_value_range:
  fixes a b :: byte
  defines "v \<equiv> (of_int (from_bytes_little [a, b]) / 128 :: rat)"
  shows "v * 128 = of_int (py_int (v * 128)) \<and> 0 \<le> py_int (v * 128) \<and> py_int (v * 128) \<le> 65535
         \<and> max 0 (min 65535 (py_int (v * 128))) = py_int (v * 128)"
proof -
  have p: "py_int (v * 128) = from_bytes_little [a, b]" unfolding v_def by (rule py_int_sample)
  have "v * 128 = of_int (from_bytes_little [a, b])" unfolding v_def by simp
  then show ?thesis using from_bytes_little2_range [of a b] unfolding p by simp
qed

lemma cell_pos_index: "cell_pos g y x = 708 + 4 * (y * g + x)"
  by (simp add: cell_pos_def)

lemma upt2: "[0..<2] = [0, 1]"
  by (simp add: upt_rec)

lemma floor54: "\<lfloor>5 / 4 :: rat\<rfloor> = 1"
  by (simp add: floor_eq_iff)


section \<open>Properties of the array operations\<close>

lemma tabulate2_shape [simp]:
  "nrows (tabulate2 r c f) = r" "ncols (tabulate2 r c f) = c"
  by (simp_all add: tabulate2_def)

lemma tabulate2_shape_ok [simp]: "shape_ok (tabulate2 r c f)"
  by (simp add: tabulate2_def shape_ok_def list_all_iff)

lemma tabulate2_cell [simp]: "i < r \<Longrightarrow> j < c \<Longrightarrow> cell_at (tabulate2 r c f) i j = f i j"
  by (simp add: tabulate2_def cell_at_def)

lemma ndarray_eqI:
  fixes a b :: ndarray
  assumes "shape_ok a" "shape_ok b" "nrows a = nrows b" "ncols a = ncols b"
    and "\<And>i j. i < nrows a \<Longrightarrow> j < ncols a \<Longrightarrow> cell_at a i j = cell_at b i j"
  shows "a = b"
proof -
  have la: "length (cells a) = nrows a" and lb: "length (cells b) = nrows a"
    using assms(1,2,3) by (simp_all add: shape_ok_def)
  have ra: "\<And>i. i < nrows a \<Longrightarrow> length (cells a ! i) = ncols a"
    using assms(1) by (simp add: shape_ok_def list_all_length)
  have rb: "\<And>i. i < nrows a \<Longrightarrow> length (cells b ! i) = ncols a"
    using assms(2,3,4) by (simp add: shape_ok_def list_all_length)
  have "cells a = cells b"
  proof (rule nth_equalityI)
    show "length (cells a) = length (cells b)" using la lb by simp
  next
    fix i assume "i < length (cells a)"
    then have i: "i < nrows a" using la by simp
    show "cells a ! i = cells b ! i"
    proof (rule nth_equalityI)
      show "length (cells a ! i) = length (cells b ! i)" using ra [OF i] rb [OF i] by simp
    next
      fix j assume "j < length (cells a ! i)"
      then have "j < ncols a" using ra [OF i] by simp
      then show "cells a ! i ! j = cells b ! i ! j"
        using assms(5) [OF i] by (simp add: cell_at_def)
    qed
  qed
  then show ?thesis using assms(3,4) by simp
qed

lemma np_zeros_shape [simp]: "nrows (np_zeros r c) = r" "ncols (np_zeros r c) = c"
  by (simp_all add: np_zeros_def)

lemma np_zeros_shape_ok [simp]: "shape_ok (np_zeros r c)"
  by (simp add: np_zeros_def shape_ok_def list_all_iff)

lemma np_zeros_cell [simp]: "i < r \<Longrightarrow> j < c \<Longrightarrow> cell_at (np_zeros r c) i j = 0"
  by (simp add: np_zeros_def cell_at_def)

lemma np_flipud_shape [simp]: "nrows (np_flipud a) = nrows a" "ncols (np_flipud a) = ncols a"
  by (simp_all add: np_flipud_def)

lemma np_flipud_shape_ok [simp]: "shape_ok a \<Longrightarrow> shape_ok (np_flipud a)"
  by (simp add: np_flipud_def shape_ok_def list_all_iff)

lemma np_flipud_cell:
  "shape_ok a \<Longrightarrow> i < nrows a \<Longrightarrow> cell_at (np_flipud a) i j = cell_at a (nrows a - 1 - i) j"
  by (simp add: np_flipud_def shape_ok_def cell_at_def rev_nth)

lemma np_fliplr_shape [simp]: "nrows (np_fliplr a) = nrows a" "ncols (np_fliplr a) = ncols a"
  by (simp_all add: np_fliplr_def)

lemma np_fliplr_shape_ok [simp]: "shape_ok a \<Longrightarrow> shape_ok (np_fliplr a)"
  by (simp add: np_fliplr_def shape_ok_def list_all_iff)

lemma np_fliplr_cell:
  "shape_ok a \<Longrightarrow> i < nrows a \<Longrightarrow> j < ncols a \<Longrightarrow>
   cell_at (np_fliplr a) i j = cell_at a i (ncols a - 1 - j)"
  by (simp add: np_fliplr_def shape_ok_def cell_at_def rev_nth list_all_length)

lemma np_fliplr_fliplr [simp]: "np_fliplr (np_fliplr a) = a"
  by (simp add: np_fliplr_def comp_def)

lemma np_transpose_shape [simp]:
  "nrows (np_transpose a) = ncols a" "ncols (np_transpose a) = nrows a"
  by (simp_all add: np_transpose_def)

lemma np_transpose_shape_ok [simp]: "shape_ok (np_transpose a)"
  by (simp add: np_transpose_def)

lemma np_transpose_cell [simp]:
  "i < ncols a \<Longrightarrow> j < nrows a \<Longrightarrow> cell_at (np_transpose a) i j = cell_at a j i"
  by (simp add: np_transpose_def)

lemma np_transpose_transpose: "shape_ok a \<Longrightarrow> np_transpose (np_transpose a) = a"
  by (rule ndarray_eqI) simp_all

lemma np_rot90_ccw: "np_rot90 a 1 = np_transpose (np_fliplr a)"
  by (simp add: np_rot90_def)

lemma np_rot90_cw: "np_rot90 a (- 1) = np_fliplr (np_transpose a)"
  by (simp add: np_rot90_def)

lemma np_rot90_cw_ccw: "shape_ok a \<Longrightarrow> np_rot90 (np_rot90 a 1) (- 1) = a"
  by (simp add: np_rot90_ccw np_rot90_cw np_transpose_transpose)

lemma np_rot90_ccw_shape [simp]:
  "nrows (np_rot90 a 1) = ncols a" "ncols (np_rot90 a 1) = nrows a"
  by (simp_all add: np_rot90_ccw)

lemma np_rot90_ccw_shape_ok [simp]: "shape_ok (np_rot90 a 1)"
  by (simp add: np_rot90_ccw)

lemma undo_display_transforms_inverse:
  assumes "shape_ok cm"
  shows "undo_display_transforms (np_rot90 (np_fliplr (np_rot90 cm 1)) 1) = cm"
proof -
  have "np_rot90 (np_rot90 (np_fliplr (np_rot90 cm 1)) 1) (- 1) = np_fliplr (np_rot90 cm 1)"
    by (rule np_rot90_cw_ccw) simp
  then show ?thesis
    using assms by (simp add: undo_display_transforms_def np_rot90_cw_ccw)
qed

lemma np_slice_block:
  assumes "sy + g \<le> nrows a" "sx + g \<le> ncols a"
  shows "np_slice a sy (sy + g) sx (sx + g) = tabulate2 g g (\<lambda>i j. cell_at a (sy + i) (sx + j))"
proof -
  have "min (sy + g) (nrows a) - min sy (nrows a) = g" "min (sx + g) (ncols a) - min sx (ncols a) = g"
    using assms by simp_all
  then show ?thesis by (simp add: np_slice_def)
qed

lemma np_set_slice_block:
  assumes "sy + g \<le> nrows a" "sx + g \<le> ncols a" "nrows src = g" "ncols src = g"
  shows "np_set_slice a sy (sy + g) sx (sx + g) src =
         Inr (tabulate2 (nrows a) (ncols a)
                (\<lambda>i j. if sy \<le> i \<and> i < sy + g \<and> sx \<le> j \<and> j < sx + g
                       then cell_at src (i - sy) (j - sx) else cell_at a i j))"
proof -
  have t: "min (sy + g) (nrows a) - min sy (nrows a) = g" "min (sx + g) (ncols a) - min sx (ncols a) = g"
    using assms by simp_all
  have "(\<lambda>i j. if sy \<le> i \<and> i < sy + g \<and> sx \<le> j \<and> j < sx + g
                       then cell_at src (if nrows src = 1 then 0 else i - sy)
                                   (if ncols src = 1 then 0 else j - sx)
                       else cell_at a i j)
      = (\<lambda>i j. if sy \<le> i \<and> i < sy + g \<and> sx \<le> j \<and> j < sx + g
                       then cell_at src (i - sy) (j - sx) else cell_at a i j)"
    using assms(3,4) by (intro ext) auto
  then show ?thesis using assms(3,4) by (simp add: np_set_slice_def t Let_def)
qed

section \<open>Properties of the placement\<close>

lemma block_div_mod:
  fixes i g d :: nat
  assumes "0 < g"
  shows "(d * g \<le> i \<and> i < d * g + g) \<longleftrightarrow> i div g = d"
proof
  assume a: "d * g \<le> i \<and> i < d * g + g"
  then obtain r where r: "i = d * g + r" "r < g"
    by (metis add_less_cancel_left le_iff_add)
  then show "i div g = d" using assms by simp
next
  assume "i div g = d"
  then have "i = d * g + i mod g" by (metis div_mult_mod_eq)
  moreover have "i mod g < g" using assms by simp
  ultimately show "d * g \<le> i \<and> i < d * g + g" by linarith
qed

lemma block_offset:
  fixes i g :: nat
  shows "i - (i div g) * g = i mod g"
  by (simp add: minus_div_mult_eq_mod)

lemma place_cols_effect:
  assumes fit: "sectors_fit sd X Y g"
    and cm: "shape_ok cm" "nrows cm = Y * g" "ncols cm = X * g"
    and dr: "dr < Y" and cols: "\<forall>c\<in>set cols. c < X"
  shows "\<exists>cm'. place_cols sd X Y g dr cols cm = Inr cm' \<and> shape_ok cm'
          \<and> nrows cm' = Y * g \<and> ncols cm' = X * g
          \<and> (\<forall>i<Y * g. \<forall>j<X * g. cell_at cm' i j =
               (if i div g = dr \<and> j div g \<in> set cols
                then (case slot_sector sd X Y dr (j div g) of
                        Some s \<Rightarrow> cell_at (np_flipud s) (i mod g) (j mod g)
                      | None \<Rightarrow> cell_at cm i j)
                else cell_at cm i j))"
  using cm cols
proof (induction cols arbitrary: cm)
  case Nil
  then show ?case by simp
next
  case (Cons col cols)
  have colX: "col < X" using Cons.prems(4) by simp
  have rest: "\<forall>c\<in>set cols. c < X" using Cons.prems(4) by simp
  show ?case
  proof (cases "slot_sector sd X Y dr col")
    case None
    obtain cm' where r: "place_cols sd X Y g dr cols cm = Inr cm'" "shape_ok cm'"
        "nrows cm' = Y * g" "ncols cm' = X * g"
      and c: "\<forall>i<Y * g. \<forall>j<X * g. cell_at cm' i j =
               (if i div g = dr \<and> j div g \<in> set cols
                then (case slot_sector sd X Y dr (j div g) of
                        Some s \<Rightarrow> cell_at (np_flipud s) (i mod g) (j mod g)
                      | None \<Rightarrow> cell_at cm i j)
                else cell_at cm i j)"
      using Cons.IH [OF Cons.prems(1,2,3) rest] by blast
    have run: "place_cols sd X Y g dr (col # cols) cm = Inr cm'"
      using None r(1) by (simp add: slot_sector_def Let_def)
    have "\<forall>i<Y * g. \<forall>j<X * g. cell_at cm' i j =
               (if i div g = dr \<and> j div g \<in> set (col # cols)
                then (case slot_sector sd X Y dr (j div g) of
                        Some s \<Rightarrow> cell_at (np_flipud s) (i mod g) (j mod g)
                      | None \<Rightarrow> cell_at cm i j)
                else cell_at cm i j)"
      using c None by auto
    then show ?thesis using run r(2,3,4) by blast
  next
    case (Some s)
    have s: "shape_ok s" "nrows s = g" "ncols s = g"
      using fit dr colX Some by (auto simp: sectors_fit_def)
    have "Suc dr * g \<le> Y * g" using dr by (intro mult_le_mono1) simp
    then have fy: "dr * g + g \<le> nrows cm" using Cons.prems(2) by simp
    have "Suc col * g \<le> X * g" using colX by (intro mult_le_mono1) simp
    then have fx: "col * g + g \<le> ncols cm" using Cons.prems(3) by simp
    define cm1 where "cm1 = tabulate2 (nrows cm) (ncols cm)
                (\<lambda>i j. if dr * g \<le> i \<and> i < dr * g + g \<and> col * g \<le> j \<and> j < col * g + g
                       then cell_at (np_flipud s) (i - dr * g) (j - col * g) else cell_at cm i j)"
    have set: "np_set_slice cm (dr * g) (dr * g + g) (col * g) (col * g + g) (np_flipud s) = Inr cm1"
      unfolding cm1_def by (rule np_set_slice_block [OF fy fx]) (simp_all add: s)
    have cm1: "shape_ok cm1" "nrows cm1 = Y * g" "ncols cm1 = X * g"
      using Cons.prems(2,3) by (simp_all add: cm1_def)
    obtain cm' where r: "place_cols sd X Y g dr cols cm1 = Inr cm'" "shape_ok cm'"
        "nrows cm' = Y * g" "ncols cm' = X * g"
      and c: "\<forall>i<Y * g. \<forall>j<X * g. cell_at cm' i j =
               (if i div g = dr \<and> j div g \<in> set cols
                then (case slot_sector sd X Y dr (j div g) of
                        Some s \<Rightarrow> cell_at (np_flipud s) (i mod g) (j mod g)
                      | None \<Rightarrow> cell_at cm1 i j)
                else cell_at cm1 i j)"
      using Cons.IH [OF cm1 rest] by blast
    have run: "place_cols sd X Y g dr (col # cols) cm = Inr cm'"
      using Some r(1) set by (simp add: slot_sector_def Let_def)
    have cell1: "\<And>i j. i < Y * g \<Longrightarrow> j < X * g \<Longrightarrow> cell_at cm1 i j =
        (if i div g = dr \<and> j div g = col then cell_at (np_flipud s) (i mod g) (j mod g)
         else cell_at cm i j)"
    proof -
      fix i j assume i: "i < Y * g" and j: "j < X * g"
      have g: "0 < g" using i by (cases g) simp_all
      have a: "(dr * g \<le> i \<and> i < dr * g + g) \<longleftrightarrow> i div g = dr" using g by (rule block_div_mod)
      have b: "(col * g \<le> j \<and> j < col * g + g) \<longleftrightarrow> j div g = col" using g by (rule block_div_mod)
      have "cell_at cm1 i j =
         (if (dr * g \<le> i \<and> i < dr * g + g) \<and> (col * g \<le> j \<and> j < col * g + g)
          then cell_at (np_flipud s) (i - dr * g) (j - col * g) else cell_at cm i j)"
        using i j Cons.prems(2,3) by (simp add: cm1_def)
      also have "\<dots> = (if i div g = dr \<and> j div g = col
          then cell_at (np_flipud s) (i - dr * g) (j - col * g) else cell_at cm i j)"
        by (simp only: a b)
      also have "\<dots> = (if i div g = dr \<and> j div g = col
          then cell_at (np_flipud s) (i mod g) (j mod g) else cell_at cm i j)"
        using block_offset [of i g] block_offset [of j g] by auto
      finally show "cell_at cm1 i j =
        (if i div g = dr \<and> j div g = col then cell_at (np_flipud s) (i mod g) (j mod g)
         else cell_at cm i j)" .
    qed
    have "\<forall>i<Y * g. \<forall>j<X * g. cell_at cm' i j =
               (if i div g = dr \<and> j div g \<in> set (col # cols)
                then (case slot_sector sd X Y dr (j div g) of
                        Some s \<Rightarrow> cell_at (np_flipud s) (i mod g) (j mod g)
                      | None \<Rightarrow> cell_at cm i j)
                else cell_at cm i j)"
    proof (intro allI impI)
      fix i j assume i: "i < Y * g" and j: "j < X * g"
      show "cell_at cm' i j =
               (if i div g = dr \<and> j div g \<in> set (col # cols)
                then (case slot_sector sd X Y dr (j div g) of
                        Some s \<Rightarrow> cell_at (np_flipud s) (i mod g) (j mod g)
                      | None \<Rightarrow> cell_at cm i j)
                else cell_at cm i j)"
        using c i j cell1 [OF i j] Some by (auto split: option.splits)
    qed
    then show ?thesis using run r(2,3,4) by blast
  qed
qed


lemma place_rows_effect:
  assumes fit: "sectors_fit sd X Y g"
    and cm: "shape_ok cm" "nrows cm = Y * g" "ncols cm = X * g"
    and rows: "\<forall>dr\<in>set drs. dr < Y"
  shows "\<exists>cm'. place_rows sd X Y g drs cm = Inr cm' \<and> shape_ok cm'
          \<and> nrows cm' = Y * g \<and> ncols cm' = X * g
          \<and> (\<forall>i<Y * g. \<forall>j<X * g. cell_at cm' i j =
               (if i div g \<in> set drs
                then (case slot_sector sd X Y (i div g) (j div g) of
                        Some s \<Rightarrow> cell_at (np_flipud s) (i mod g) (j mod g)
                      | None \<Rightarrow> cell_at cm i j)
                else cell_at cm i j))"
  using cm rows
proof (induction drs arbitrary: cm)
  case Nil
  then show ?case by simp
next
  case (Cons dr drs)
  have drY: "dr < Y" using Cons.prems(4) by simp
  have rest: "\<forall>d\<in>set drs. d < Y" using Cons.prems(4) by simp
  have allc: "\<forall>c\<in>set [0..<X]. c < X" by simp
  obtain cm1 where r1: "place_cols sd X Y g dr [0..<X] cm = Inr cm1"
      and cm1: "shape_ok cm1" "nrows cm1 = Y * g" "ncols cm1 = X * g"
      and c1: "\<forall>i<Y * g. \<forall>j<X * g. cell_at cm1 i j =
               (if i div g = dr \<and> j div g \<in> set [0..<X]
                then (case slot_sector sd X Y dr (j div g) of
                        Some s \<Rightarrow> cell_at (np_flipud s) (i mod g) (j mod g)
                      | None \<Rightarrow> cell_at cm i j)
                else cell_at cm i j)"
    using place_cols_effect [OF fit Cons.prems(1,2,3) drY allc] by blast
  obtain cm' where r: "place_rows sd X Y g drs cm1 = Inr cm'" "shape_ok cm'"
        "nrows cm' = Y * g" "ncols cm' = X * g"
      and c: "\<forall>i<Y * g. \<forall>j<X * g. cell_at cm' i j =
               (if i div g \<in> set drs
                then (case slot_sector sd X Y (i div g) (j div g) of
                        Some s \<Rightarrow> cell_at (np_flipud s) (i mod g) (j mod g)
                      | None \<Rightarrow> cell_at cm1 i j)
                else cell_at cm1 i j)"
    using Cons.IH [OF cm1 rest] by blast
  have run: "place_rows sd X Y g (dr # drs) cm = Inr cm'" using r1 r(1) by simp
  have "\<forall>i<Y * g. \<forall>j<X * g. cell_at cm' i j =
               (if i div g \<in> set (dr # drs)
                then (case slot_sector sd X Y (i div g) (j div g) of
                        Some s \<Rightarrow> cell_at (np_flipud s) (i mod g) (j mod g)
                      | None \<Rightarrow> cell_at cm i j)
                else cell_at cm i j)"
  proof (intro allI impI)
    fix i j assume i: "i < Y * g" and j: "j < X * g"
    have "j div g < X" using j by (simp add: less_mult_imp_div_less)
    then have jin: "j div g \<in> set [0..<X]" by simp
    have e1: "cell_at cm1 i j =
               (if i div g = dr
                then (case slot_sector sd X Y dr (j div g) of
                        Some s \<Rightarrow> cell_at (np_flipud s) (i mod g) (j mod g)
                      | None \<Rightarrow> cell_at cm i j)
                else cell_at cm i j)"
      using c1 i j jin by simp
    show "cell_at cm' i j =
               (if i div g \<in> set (dr # drs)
                then (case slot_sector sd X Y (i div g) (j div g) of
                        Some s \<Rightarrow> cell_at (np_flipud s) (i mod g) (j mod g)
                      | None \<Rightarrow> cell_at cm i j)
                else cell_at cm i j)"
      using c i j e1 by (auto split: option.splits)
  qed
  then show ?case using run r(2,3,4) by blast
qed

lemma place_sectors_cells:
  assumes fit: "sectors_fit sd X Y g"
  shows "\<exists>cm. place_sectors sd X Y g = Inr cm \<and> shape_ok cm
          \<and> nrows cm = Y * g \<and> ncols cm = X * g
          \<and> (\<forall>i<Y * g. \<forall>j<X * g. cell_at cm i j =
               (case slot_sector sd X Y (i div g) (j div g) of
                  Some s \<Rightarrow> cell_at (np_flipud s) (i mod g) (j mod g)
                | None \<Rightarrow> 0))"
proof -
  have z: "shape_ok (np_zeros (Y * g) (X * g))" "nrows (np_zeros (Y * g) (X * g)) = Y * g"
    "ncols (np_zeros (Y * g) (X * g)) = X * g" by simp_all
  have rows: "\<forall>dr\<in>set [0..<Y]. dr < Y" by simp
  obtain cm where r: "place_rows sd X Y g [0..<Y] (np_zeros (Y * g) (X * g)) = Inr cm"
      "shape_ok cm" "nrows cm = Y * g" "ncols cm = X * g"
    and c: "\<forall>i<Y * g. \<forall>j<X * g. cell_at cm i j =
               (if i div g \<in> set [0..<Y]
                then (case slot_sector sd X Y (i div g) (j div g) of
                        Some s \<Rightarrow> cell_at (np_flipud s) (i mod g) (j mod g)
                      | None \<Rightarrow> cell_at (np_zeros (Y * g) (X * g)) i j)
                else cell_at (np_zeros (Y * g) (X * g)) i j)"
    using place_rows_effect [OF fit z rows] by blast
  have run: "place_sectors sd X Y g = Inr cm" using r(1) by (simp add: place_sectors_def)
  have "\<forall>i<Y * g. \<forall>j<X * g. cell_at cm i j =
               (case slot_sector sd X Y (i div g) (j div g) of
                  Some s \<Rightarrow> cell_at (np_flipud s) (i mod g) (j mod g)
                | None \<Rightarrow> 0)"
  proof (intro allI impI)
    fix i j assume i: "i < Y * g" and j: "j < X * g"
    have "i div g < Y" using i by (simp add: less_mult_imp_div_less)
    then show "cell_at cm i j =
               (case slot_sector sd X Y (i div g) (j div g) of
                  Some s \<Rightarrow> cell_at (np_flipud s) (i mod g) (j mod g)
                | None \<Rightarrow> 0)"
      using c i j by (auto split: option.splits)
  qed
  then show ?thesis using run r(2,3,4) by blast
qed

lemma placed_block:
  assumes cm: "shape_ok cm" "nrows cm = Y * g" "ncols cm = X * g"
    and cells: "\<forall>i<Y * g. \<forall>j<X * g. cell_at cm i j =
               (case slot_sector sd X Y (i div g) (j div g) of
                  Some s \<Rightarrow> cell_at (np_flipud s) (i mod g) (j mod g)
                | None \<Rightarrow> 0)"
    and fit: "sectors_fit sd X Y g"
    and dr: "dr < Y" and c: "c < X"
  shows "sector_block cm g dr c =
         (case slot_sector sd X Y dr c of Some s \<Rightarrow> np_flipud s | None \<Rightarrow> np_zeros g g)"
proof -
  have "Suc dr * g \<le> Y * g" using dr by (intro mult_le_mono1) simp
  then have fy: "dr * g + g \<le> nrows cm" using cm(2) by simp
  have "Suc c * g \<le> X * g" using c by (intro mult_le_mono1) simp
  then have fx: "c * g + g \<le> ncols cm" using cm(3) by simp
  have blk: "sector_block cm g dr c = tabulate2 g g (\<lambda>i j. cell_at cm (dr * g + i) (c * g + j))"
    using np_slice_block [OF fy fx] by (simp add: sector_block_def Let_def)
  have cell: "\<And>i j. i < g \<Longrightarrow> j < g \<Longrightarrow> cell_at cm (dr * g + i) (c * g + j) =
       (case slot_sector sd X Y dr c of
                  Some s \<Rightarrow> cell_at (np_flipud s) i j | None \<Rightarrow> 0)"
  proof -
    fix i j assume i: "i < g" and j: "j < g"
    have a: "dr * g + i < Y * g" using fy cm(2) i by simp
    have b: "c * g + j < X * g" using fx cm(3) j by simp
    have "(dr * g + i) div g = dr" "(dr * g + i) mod g = i"
         "(c * g + j) div g = c" "(c * g + j) mod g = j"
      using i j by simp_all
    then show "cell_at cm (dr * g + i) (c * g + j) =
       (case slot_sector sd X Y dr c of
                  Some s \<Rightarrow> cell_at (np_flipud s) i j | None \<Rightarrow> 0)"
      using cells a b by (simp split: option.splits)
  qed
  show ?thesis
  proof (cases "slot_sector sd X Y dr c")
    case None
    have "tabulate2 g g (\<lambda>i j. cell_at cm (dr * g + i) (c * g + j)) = np_zeros g g"
      by (rule ndarray_eqI) (simp_all add: cell None)
    then show ?thesis using blk None by simp
  next
    case (Some s)
    then have s: "shape_ok s" "nrows s = g" "ncols s = g"
      using fit dr c by (auto simp: sectors_fit_def)
    have "tabulate2 g g (\<lambda>i j. cell_at cm (dr * g + i) (c * g + j)) = np_flipud s"
      by (rule ndarray_eqI) (simp_all add: cell Some s)
    then show ?thesis using blk Some by simp
  qed
qed


lemma np_set_slice_frame:
  assumes "np_set_slice a sy (sy + g) sx (sx + g) src = Inr a'"
  shows "shape_ok a' \<and> nrows a' = nrows a \<and> ncols a' = ncols a
       \<and> (\<forall>i<nrows a. \<forall>j<ncols a.
            \<not> (sy \<le> i \<and> i < sy + g \<and> sx \<le> j \<and> j < sx + g) \<longrightarrow> cell_at a' i j = cell_at a i j)"
proof -
  let ?tr = "min (sy + g) (nrows a) - min sy (nrows a)"
  let ?tc = "min (sx + g) (ncols a) - min sx (ncols a)"
  have tr: "sy + ?tr \<le> sy + g" and tc: "sx + ?tc \<le> sx + g" by simp_all
  have a': "a' = tabulate2 (nrows a) (ncols a)
                (\<lambda>i j. if sy \<le> i \<and> i < sy + ?tr \<and> sx \<le> j \<and> j < sx + ?tc
                       then cell_at src (if nrows src = 1 then 0 else i - sy)
                                   (if ncols src = 1 then 0 else j - sx)
                       else cell_at a i j)"
    using assms by (simp add: np_set_slice_def Let_def split: if_splits)
  have "\<forall>i<nrows a. \<forall>j<ncols a.
            \<not> (sy \<le> i \<and> i < sy + g \<and> sx \<le> j \<and> j < sx + g) \<longrightarrow> cell_at a' i j = cell_at a i j"
  proof (intro allI impI)
    fix i j assume i: "i < nrows a" and j: "j < ncols a"
      and out: "\<not> (sy \<le> i \<and> i < sy + g \<and> sx \<le> j \<and> j < sx + g)"
    have "\<not> (sy \<le> i \<and> i < sy + ?tr \<and> sx \<le> j \<and> j < sx + ?tc)"
      using out tr tc by linarith
    then show "cell_at a' i j = cell_at a i j" using i j by (simp only: a' tabulate2_cell if_False)
  qed
  then show ?thesis by (simp add: a')
qed

lemma place_cols_frame:
  assumes "place_cols sd X Y g dr cols cm = Inr cm'" and "shape_ok cm"
  shows "shape_ok cm' \<and> nrows cm' = nrows cm \<and> ncols cm' = ncols cm
       \<and> (\<forall>i<nrows cm. \<forall>j<ncols cm.
             slot_sector sd X Y dr (j div g) = None \<or> i div g \<noteq> dr \<longrightarrow> cell_at cm' i j = cell_at cm i j)"
  using assms
proof (induction cols arbitrary: cm)
  case Nil
  then show ?case by simp
next
  case (Cons col cols)
  show ?case
  proof (cases "slot_sector sd X Y dr col")
    case None
    then have "place_cols sd X Y g dr cols cm = Inr cm'"
      using Cons.prems(1) by (simp add: slot_sector_def Let_def)
    then show ?thesis using Cons.IH Cons.prems(2) by blast
  next
    case (Some s)
    then obtain cm1 where set: "np_set_slice cm (dr * g) (dr * g + g) (col * g) (col * g + g) (np_flipud s) = Inr cm1"
      and run: "place_cols sd X Y g dr cols cm1 = Inr cm'"
      using Cons.prems(1) by (auto simp: slot_sector_def Let_def split: sum.splits)
    note f1 = np_set_slice_frame [OF set]
    have ok1: "shape_ok cm1" using f1 by simp
    note ih = Cons.IH [OF run ok1]
    have "\<forall>i<nrows cm. \<forall>j<ncols cm.
             slot_sector sd X Y dr (j div g) = None \<or> i div g \<noteq> dr \<longrightarrow> cell_at cm' i j = cell_at cm i j"
    proof (intro allI impI)
      fix i j assume i: "i < nrows cm" and j: "j < ncols cm"
        and h: "slot_sector sd X Y dr (j div g) = None \<or> i div g \<noteq> dr"
      have "i < nrows cm1" "j < ncols cm1" using i j f1 by simp_all
      then have e1: "cell_at cm' i j = cell_at cm1 i j" using ih h by blast
      have "\<not> (dr * g \<le> i \<and> i < dr * g + g \<and> col * g \<le> j \<and> j < col * g + g)"
      proof
        assume b: "dr * g \<le> i \<and> i < dr * g + g \<and> col * g \<le> j \<and> j < col * g + g"
        then have g: "0 < g" by (cases g) simp_all
        have "i div g = dr" using b block_div_mod [OF g, of dr i] by blast
        moreover have "j div g = col" using b block_div_mod [OF g, of col j] by blast
        ultimately have "i div g = dr" "j div g = col" by simp_all
        then show False using h Some by simp
      qed
      then have "cell_at cm1 i j = cell_at cm i j" using f1 i j by blast
      then show "cell_at cm' i j = cell_at cm i j" using e1 by simp
    qed
    then show ?thesis using ih f1 by simp
  qed
qed

lemma place_rows_frame:
  assumes "place_rows sd X Y g drs cm = Inr cm'" and "shape_ok cm"
  shows "shape_ok cm' \<and> nrows cm' = nrows cm \<and> ncols cm' = ncols cm
       \<and> (\<forall>i<nrows cm. \<forall>j<ncols cm.
             slot_sector sd X Y (i div g) (j div g) = None \<longrightarrow> cell_at cm' i j = cell_at cm i j)"
  using assms
proof (induction drs arbitrary: cm)
  case Nil
  then show ?case by simp
next
  case (Cons dr drs)
  obtain cm1 where r1: "place_cols sd X Y g dr [0..<X] cm = Inr cm1"
    and run: "place_rows sd X Y g drs cm1 = Inr cm'"
    using Cons.prems(1) by (auto split: sum.splits)
  note f1 = place_cols_frame [OF r1 Cons.prems(2)]
  have ok1: "shape_ok cm1" using f1 by simp
  note ih = Cons.IH [OF run ok1]
  have "\<forall>i<nrows cm. \<forall>j<ncols cm.
             slot_sector sd X Y (i div g) (j div g) = None \<longrightarrow> cell_at cm' i j = cell_at cm i j"
  proof (intro allI impI)
    fix i j assume i: "i < nrows cm" and j: "j < ncols cm"
      and h: "slot_sector sd X Y (i div g) (j div g) = None"
    have "i < nrows cm1" "j < ncols cm1" using i j f1 by simp_all
    then have "cell_at cm' i j = cell_at cm1 i j" using ih h by blast
    moreover have "cell_at cm1 i j = cell_at cm i j"
    proof (cases "i div g = dr")
      case True
      then have "slot_sector sd X Y dr (j div g) = None" using h by simp
      then show ?thesis using f1 i j by blast
    next
      case False
      then show ?thesis using f1 i j by blast
    qed
    ultimately show "cell_at cm' i j = cell_at cm i j" by simp
  qed
  then show ?case using ih f1 by simp
qed

lemma place_sectors_frame:
  assumes "place_sectors sd X Y g = Inr cm"
  shows "shape_ok cm \<and> nrows cm = Y * g \<and> ncols cm = X * g
       \<and> (\<forall>i<Y * g. \<forall>j<X * g.
             slot_sector sd X Y (i div g) (j div g) = None \<longrightarrow> cell_at cm i j = 0)"
proof -
  have run: "place_rows sd X Y g [0..<Y] (np_zeros (Y * g) (X * g)) = Inr cm"
    using assms by (simp add: place_sectors_def)
  have ok: "shape_ok (np_zeros (Y * g) (X * g))" by simp
  note f = place_rows_frame [OF run ok]
  have "\<forall>i<Y * g. \<forall>j<X * g.
             slot_sector sd X Y (i div g) (j div g) = None \<longrightarrow> cell_at cm i j = 0"
  proof (intro allI impI)
    fix i j assume i: "i < Y * g" and j: "j < X * g"
      and h: "slot_sector sd X Y (i div g) (j div g) = None"
    have "i < nrows (np_zeros (Y * g) (X * g))" "j < ncols (np_zeros (Y * g) (X * g))"
      using i j by simp_all
    then have "cell_at cm i j = cell_at (np_zeros (Y * g) (X * g)) i j" using f h by blast
    then show "cell_at cm i j = 0" using i j by simp
  qed
  then show ?thesis using f by simp
qed

lemma absent_block_zero:
  assumes run: "place_sectors sd X Y g = Inr cm"
    and dr: "dr < Y" and c: "c < X" and absent: "slot_sector sd X Y dr c = None"
  shows "sector_block cm g dr c = np_zeros g g"
proof -
  note f = place_sectors_frame [OF run]
  have "Suc dr * g \<le> Y * g" using dr by (intro mult_le_mono1) simp
  then have fy: "dr * g + g \<le> nrows cm" using f by simp
  have "Suc c * g \<le> X * g" using c by (intro mult_le_mono1) simp
  then have fx: "c * g + g \<le> ncols cm" using f by simp
  have blk: "sector_block cm g dr c = tabulate2 g g (\<lambda>i j. cell_at cm (dr * g + i) (c * g + j))"
    using np_slice_block [OF fy fx] by (simp add: sector_block_def Let_def)
  have cell: "\<And>i j. i < g \<Longrightarrow> j < g \<Longrightarrow> cell_at cm (dr * g + i) (c * g + j) = 0"
  proof -
    fix i j assume i: "i < g" and j: "j < g"
    have a: "dr * g + i < Y * g" using fy f i by simp
    have b: "c * g + j < X * g" using fx f j by simp
    have "(dr * g + i) div g = dr" "(c * g + j) div g = c" using i j by simp_all
    then show "cell_at cm (dr * g + i) (c * g + j) = 0" using f a b absent by simp
  qed
  have "tabulate2 g g (\<lambda>i j. cell_at cm (dr * g + i) (c * g + j)) = np_zeros g g"
    by (rule ndarray_eqI) (simp_all add: cell)
  then show ?thesis using blk by simp
qed

lemma upt1: "[0..<1] = [0]"
  by (simp add: upt_rec)


lemma slot_of_index:
  fixes k X Y :: nat
  assumes "k < X * Y"
  shows "Y - 1 - k div X < Y \<and> k mod X < X \<and> (Y - 1 - (Y - 1 - k div X)) * X + k mod X = k"
proof -
  have X: "0 < X" using assms by (cases X) simp_all
  have "k < Y * X" using assms by (simp add: mult.commute)
  then have d: "k div X < Y" by (simp add: less_mult_imp_div_less)
  then have "Y - 1 - (Y - 1 - k div X) = k div X" by simp
  then show ?thesis using d X by simp
qed


lemma map_cells_comp: "map_cells f (map_cells g a) = map_cells (f \<circ> g) a"
  by (simp add: map_cells_def)

lemma map_cells_id: "(\<And>v. f v = v) \<Longrightarrow> map_cells f a = a"
proof -
  assume "\<And>v. f v = v"
  then have "f = (\<lambda>v. v)" by (intro ext)
  then show ?thesis by (simp add: map_cells_def)
qed

lemma map_cells_zeros: "f 0 = 0 \<Longrightarrow> map_cells f (np_zeros r c) = np_zeros r c"
  by (simp add: map_cells_def np_zeros_def)


lemma load_files_skip:
  assumes "load_single_sector bs 65 = Inl e"
  shows "load_files (before @ (Some k, bs) # after) sd = load_files (before @ after) sd"
proof (induction before arbitrary: sd)
  case Nil
  then show ?case using assms by simp
next
  case (Cons f before)
  obtain p c where f: "f = (p, c)" by (cases f)
  show ?case using Cons.IH by (simp add: f split: option.splits sum.splits)
qed

lemma load_files_absent:
  assumes "map_of sd k = None" and "Some k \<notin> fst ` set fs"
  shows "map_of (load_files fs sd) k = None"
  using assms
proof (induction fs arbitrary: sd)
  case Nil
  then show ?case by simp
next
  case (Cons f fs)
  obtain p c where f: "f = (p, c)" by (cases f)
  have rest: "Some k \<notin> fst ` set fs" using Cons.prems(2) by simp
  have pk: "p \<noteq> Some k" using Cons.prems(2) by (auto simp: f)
  show ?case
  proof (cases p)
    case None
    then show ?thesis using Cons.IH [OF Cons.prems(1) rest] by (simp add: f)
  next
    case (Some n)
    then have nk: "n \<noteq> k" using pk by simp
    show ?thesis
    proof (cases "load_single_sector c 65")
      case (Inl e)
      then show ?thesis using Cons.IH [OF Cons.prems(1) rest] by (simp add: f Some)
    next
      case (Inr a)
      have "map_of (AList.update n a sd) k = None"
        using Cons.prems(1) nk by (simp add: update_conv')
      then have "map_of (load_files fs (AList.update n a sd)) k = None"
        using rest by (rule Cons.IH)
      then show ?thesis by (simp add: f Some Inr)
    qed
  qed
qed

lemma decode_truncated_65:
  assumes "710 \<le> length bs" and "length bs \<le> 17605"
  shows "load_single_sector bs 65 = Inl ValueError"
proof (rule decode_ragged)
  have l: "length (window bs) = min 16900 (length bs - 708)" by (simp add: window_def)
  show "2 \<le> length (window bs)" using assms l by simp
  show "length (window bs) + 2 < 4 * (65 * 65)" using assms l by simp
qed

lemma map_const_replicate: "\<forall>x\<in>set xs. f x = c \<Longrightarrow> map f xs = replicate (length xs) c"
  by (induction xs) simp_all

lemma sample_zeros: "4 * i + 1 < n \<Longrightarrow> sample (replicate n 0) i = 0"
  by (simp add: sample_def)

lemma decode_zeros_65:
  assumes "17606 \<le> n"
  shows "load_single_sector (replicate n 0) 65 = Inr (np_zeros 65 65)"
proof -
  let ?t = "window (replicate n 0)"
  have t: "?t = replicate (min 16900 (n - 708)) 0" by (simp add: window_def)
  have m: "16898 \<le> min 16900 (n - 708)" using assms by simp
  have "4 * (65 * 65) \<le> length ?t + 2" using m by (simp add: t)
  then have dec: "load_single_sector (replicate n 0) 65 =
         Inr \<lparr>nrows = 65, ncols = 65,
               cells = map (\<lambda>y. map (sample ?t) [y * 65..<y * 65 + 65]) [0..<65]\<rparr>"
    by (rule decode_full)
  have row: "\<And>y. y < 65 \<Longrightarrow> map (sample ?t) [y * 65..<y * 65 + 65] = replicate 65 0"
  proof -
    fix y :: nat assume y: "y < 65"
    have "\<forall>i\<in>set [y * 65..<y * 65 + 65]. sample ?t i = 0"
    proof
      fix i assume "i \<in> set [y * 65..<y * 65 + 65]"
      then have "i < 4225" using y by simp
      then have "4 * i + 1 < min 16900 (n - 708)" using m by simp
      then show "sample ?t i = 0" unfolding t by (rule sample_zeros)
    qed
    then have "map (sample ?t) [y * 65..<y * 65 + 65] = replicate (length [y * 65..<y * 65 + 65]) 0"
      by (rule map_const_replicate)
    then show "map (sample ?t) [y * 65..<y * 65 + 65] = replicate 65 0" by simp
  qed
  have "\<forall>y\<in>set [0..<65]. map (sample ?t) [y * 65..<y * 65 + 65] = replicate 65 0"
    using row by simp
  then have "map (\<lambda>y. map (sample ?t) [y * 65..<y * 65 + 65]) [0..<65]
             = replicate (length [0..<65]) (replicate 65 0)"
    by (rule map_const_replicate)
  then show ?thesis using dec by (simp add: np_zeros_def)
qed



section \<open>The claims\<close>

text \<open>
  C1 (codec round trip), as the code has it. \<open>write_sector_to_file\<close> reverses the row
  order of the grid it is given, undoing the flip of \<open>create_combined_heightmap\<close>, so it is
  the vertically flipped decoded grid that encodes back to the original bytes: for every
  \<open>grid_size\<close> up to 65 and every buffer \<open>B\<close> of at least \<open>708 + grid_size * grid_size * 4\<close>
  bytes, decoding \<open>B\<close> succeeds and encoding the flipped result over \<open>B\<close> gives \<open>B\<close> again,
  byte for byte.
\<close>

theorem roundtrip_flipped:
  assumes g65: "grid_size \<le> 65" and len: "708 + grid_size * grid_size * 4 \<le> length B"
  shows "\<exists>a. load_single_sector B grid_size = Inr a
           \<and> write_sector_to_file B (np_flipud a) grid_size = Inr B"
proof -
  let ?g = grid_size
  let ?t = "window B"
  define a where "a = \<lparr>nrows = ?g, ncols = ?g,
      cells = map (\<lambda>y. map (sample ?t) [y * ?g..<y * ?g + ?g]) [0..<?g]\<rparr>"
  have lt: "length ?t = min 16900 (length B - 708)" by (simp add: window_def)
  have "?g * ?g \<le> 65 * 65" using g65 by (intro mult_le_mono)
  then have full: "4 * (?g * ?g) \<le> length ?t" using lt len by simp
  then have "4 * (?g * ?g) \<le> length ?t + 2" by simp
  then have dec: "load_single_sector B ?g = Inr a" unfolding a_def by (rule decode_full)
  have wr: "write_sector_to_file B (np_flipud a) ?g = write_rows a ?g [0..<?g] B"
    by (simp add: write_sector_rows np_flipud_flipud)
  have "\<exists>out. write_rows a ?g [0..<?g] B = Inr out"
    by (rule write_rows_succeeds) (simp_all add: a_def)
  then obtain out where out: "write_rows a ?g [0..<?g] B = Inr out" by blast
  have pos: "\<forall>y\<in>set [0..<?g]. \<forall>x<?g. cell_pos ?g y x + 2 \<le> length B"
    using cell_pos_fits [OF len] by simp
  note eff = write_rows_effect [OF out pos]
  have "out = B"
  proof (rule nth_equalityI)
    show "length out = length B" using eff by simp
  next
    fix p assume "p < length out"
    then have p: "p < length B" using eff by simp
    show "out ! p = B ! p"
    proof (cases "\<exists>y<?g. \<exists>x<?g. p = cell_pos ?g y x \<or> p = cell_pos ?g y x + 1")
      case True
      then obtain y x where y: "y < ?g" and x: "x < ?g"
        and px: "p = cell_pos ?g y x \<or> p = cell_pos ?g y x + 1" by blast
      have cell: "cells a ! y ! x = sample ?t (y * ?g + x)" using y x by (simp add: a_def)
      have i: "y * ?g + x < ?g * ?g" using y x by (rule idx_bound)
      have "4 * (y * ?g + x) < length ?t" "4 * (y * ?g + x) + 1 < length ?t"
        using i full by simp_all
      then have t0: "?t ! (4 * (y * ?g + x)) = B ! cell_pos ?g y x"
        and t1: "?t ! (4 * (y * ?g + x) + 1) = B ! (cell_pos ?g y x + 1)"
        by (simp_all add: window_nth cell_pos_def algebra_simps)
      have yin: "y \<in> set [0..<?g]" using y by simp
      have v: "out ! cell_pos ?g y x = word_of_int (clamp16 (cells a ! y ! x))
             \<and> out ! (cell_pos ?g y x + 1) = word_of_int (clamp16 (cells a ! y ! x) div 256)"
        using eff yin x by simp
      show ?thesis using px v t0 t1 by (auto simp only: cell enc_sample)
    next
      case False
      then have "\<forall>y\<in>set [0..<?g]. \<forall>x<?g. p \<noteq> cell_pos ?g y x \<and> p \<noteq> cell_pos ?g y x + 1"
        by auto
      then show ?thesis using eff p by blast
    qed
  qed
  then show ?thesis using dec wr out by simp
qed

theorem roundtrip_flipped_witness:
  "(1::nat) \<le> 65 \<and> 708 + 1 * 1 * 4 \<le> length (replicate 708 7 @ [1, 2, 3, 4 :: byte])
   \<and> load_single_sector (replicate 708 7 @ [1, 2, 3, 4]) 1 = Inr \<lparr>nrows = 1, ncols = 1, cells = [[513 / 128]]\<rparr>
   \<and> write_sector_to_file (replicate 708 7 @ [1, 2, 3, 4])
        (np_flipud \<lparr>nrows = 1, ncols = 1, cells = [[513 / 128]]\<rparr>) 1 = Inr (replicate 708 7 @ [1, 2, 3, 4])"
proof -
  have h1: "(1::nat) \<le> 65" by simp
  have h2: "708 + 1 * 1 * 4 \<le> length (replicate 708 7 @ [1, 2, 3, 4 :: byte])" by simp
  have d: "load_single_sector (replicate 708 7 @ [1, 2, 3, 4]) 1 = Inr \<lparr>nrows = 1, ncols = 1, cells = [[513 / 128]]\<rparr>"
    by (simp add: load_single_sector_def np_array_def Let_def)
  show ?thesis using roundtrip_flipped [OF h1 h2] h1 h2 d by simp
qed

theorem roundtrip_counterexample:
  "load_single_sector (replicate 708 0 @ [1,0,0,0, 0,0,0,0, 0,0,0,0, 0,0,0,0]) 2
     = Inr \<lparr>nrows = 2, ncols = 2, cells = [[1 / 128, 0], [0, 0]]\<rparr>
   \<and> write_sector_to_file (replicate 708 0 @ [1,0,0,0, 0,0,0,0, 0,0,0,0, 0,0,0,0])
        \<lparr>nrows = 2, ncols = 2, cells = [[1 / 128, 0], [0, 0]]\<rparr> 2
     = Inr (replicate 708 0 @ [0,0,0,0, 0,0,0,0, 1,0,0,0, 0,0,0,0])
   \<and> replicate 708 0 @ [0,0,0,0, 0,0,0,0, 1,0,0,0, 0,0,0,0]
     \<noteq> replicate 708 0 @ [1,0,0,0, 0,0,0,0, 0,0,0,0, 0,0,0,0 :: byte]
   \<and> load_single_sector (replicate (708 + 66 * 66 * 4) 0) 66 = Inl ValueError"
proof -
  have a: "load_single_sector (replicate 708 0 @ [1,0,0,0, 0,0,0,0, 0,0,0,0, 0,0,0,0]) 2
     = Inr \<lparr>nrows = 2, ncols = 2, cells = [[1 / 128, 0], [0, 0]]\<rparr>"
    by (simp add: load_single_sector_def np_array_def numeral_2_eq_2 Let_def)
  have b: "write_sector_to_file (replicate 708 0 @ [1,0,0,0, 0,0,0,0, 0,0,0,0, 0,0,0,0])
        \<lparr>nrows = 2, ncols = 2, cells = [[1 / 128, 0], [0, 0]]\<rparr> 2
     = Inr (replicate 708 0 @ [0,0,0,0, 0,0,0,0, 1,0,0,0, 0,0,0,0])"
    by (simp add: write_sector_to_file_def np_flipud_def getitem2_def py_int_def
        to_bytes2_little_def set_slice2_def numeral_2_eq_2 upt_rec)
  have c: "load_single_sector (replicate (708 + 66 * 66 * 4) 0) 66 = Inl ValueError"
    by (rule decode_ragged) (simp_all add: window_def)
  show ?thesis using a b c by simp
qed

text \<open>
  C2 (encode value formula), as the code has it. For every original buffer of at least
  \<open>708 + grid_size * grid_size * 4\<close> bytes, every grid with at least \<open>grid_size\<close> rows and
  columns and every cell \<open>(y, x)\<close> with \<open>y, x < grid_size\<close>, the encoder succeeds and the two
  bytes at offset \<open>708 + (y * grid_size + x) * 4\<close> of its output are the little-endian
  unsigned 16-bit form of \<open>int(grid[nrows - 1 - y][x] * 128)\<close> clamped to \<open>[0, 65535]\<close>: the
  value is truncated towards zero, not rounded, and it is taken from the vertically
  mirrored row (row \<open>grid_size - 1 - y\<close> of a square grid).
\<close>

theorem encode_value_formula:
  assumes len: "708 + grid_size * grid_size * 4 \<le> length file_content"
    and ok: "shape_ok height_data"
    and nr: "grid_size \<le> nrows height_data" and nc: "grid_size \<le> ncols height_data"
    and y: "y < grid_size" and x: "x < grid_size"
  shows "\<exists>out. write_sector_to_file file_content height_data grid_size = Inr out
         \<and> to_bytes2_little
             (max 0 (min 65535 (py_int (cells height_data ! (nrows height_data - 1 - y) ! x * 128))))
           = Inr [out ! (708 + (y * grid_size + x) * 4), out ! (708 + (y * grid_size + x) * 4 + 1)]"
proof -
  let ?g = grid_size
  let ?hf = "np_flipud height_data"
  have "\<exists>out. write_rows ?hf ?g [0..<?g] file_content = Inr out"
    by (rule write_rows_succeeds) (use nr nc in \<open>simp_all add: np_flipud_def\<close>)
  then obtain out where rows: "write_rows ?hf ?g [0..<?g] file_content = Inr out" by blast
  have pos: "\<forall>y\<in>set [0..<?g]. \<forall>x<?g. cell_pos ?g y x + 2 \<le> length file_content"
    using cell_pos_fits [OF len] by simp
  note eff = write_rows_effect [OF rows pos]
  have yin: "y \<in> set [0..<?g]" using y by simp
  have v: "out ! cell_pos ?g y x = word_of_int (clamp16 (cells ?hf ! y ! x))
         \<and> out ! (cell_pos ?g y x + 1) = word_of_int (clamp16 (cells ?hf ! y ! x) div 256)"
    using eff yin x by simp
  have "y < length (cells height_data)" using ok nr y by (simp add: shape_ok_def)
  then have "rev (cells height_data) ! y = cells height_data ! (length (cells height_data) - Suc y)"
    by (rule rev_nth)
  then have src: "cells ?hf ! y ! x = cells height_data ! (nrows height_data - 1 - y) ! x"
    using ok by (simp add: np_flipud_def shape_ok_def)
  have "to_bytes2_little (clamp16 (cells ?hf ! y ! x))
        = Inr [out ! cell_pos ?g y x, out ! (cell_pos ?g y x + 1)]"
    using v by (simp only: to_bytes2_clamp16)
  then have "to_bytes2_little
             (max 0 (min 65535 (py_int (cells height_data ! (nrows height_data - 1 - y) ! x * 128))))
           = Inr [out ! (708 + (y * ?g + x) * 4), out ! (708 + (y * ?g + x) * 4 + 1)]"
    by (simp only: src clamp16_def cell_pos_def)
  then show ?thesis using rows by (simp only: write_sector_rows) blast
qed

theorem encode_value_formula_witness:
  "708 + 2 * 2 * 4 \<le> length (replicate 708 0 @ [9, 9, 9, 9, 9, 9, 9, 9, 9, 9, 9, 9, 9, 9, 9, 9 :: byte])
   \<and> shape_ok \<lparr>nrows = 2, ncols = 2, cells = [[1, 2], [3, 4]]\<rparr>
   \<and> (2::nat) \<le> nrows \<lparr>nrows = 2, ncols = 2, cells = [[1, 2], [3, 4]]\<rparr>
   \<and> (2::nat) \<le> ncols \<lparr>nrows = 2, ncols = 2, cells = [[1, 2], [3, 4]]\<rparr>
   \<and> (0::nat) < 2 \<and> (1::nat) < 2
   \<and> write_sector_to_file (replicate 708 0 @ [9, 9, 9, 9, 9, 9, 9, 9, 9, 9, 9, 9, 9, 9, 9, 9])
        \<lparr>nrows = 2, ncols = 2, cells = [[1, 2], [3, 4]]\<rparr> 2
       = Inr (replicate 708 0 @ [128, 1, 9, 9, 0, 2, 9, 9, 128, 0, 9, 9, 0, 1, 9, 9])
   \<and> to_bytes2_little (max 0 (min 65535 (py_int (4 * 128)))) = Inr [0, 2]"
proof -
  have h1: "708 + 2 * 2 * 4 \<le> length (replicate 708 0 @ [9, 9, 9, 9, 9, 9, 9, 9, 9, 9, 9, 9, 9, 9, 9, 9 :: byte])"
    by simp
  have h2: "shape_ok \<lparr>nrows = 2, ncols = 2, cells = [[1, 2], [3, 4]]\<rparr>"
    by (simp add: shape_ok_def)
  have h3: "(2::nat) \<le> nrows \<lparr>nrows = 2, ncols = 2, cells = [[1, 2], [3, 4]]\<rparr>" by simp
  have h4: "(2::nat) \<le> ncols \<lparr>nrows = 2, ncols = 2, cells = [[1, 2], [3, 4]]\<rparr>" by simp
  have h5: "(0::nat) < 2" by simp
  have h6: "(1::nat) < 2" by simp
  have e: "write_sector_to_file (replicate 708 0 @ [9, 9, 9, 9, 9, 9, 9, 9, 9, 9, 9, 9, 9, 9, 9, 9])
        \<lparr>nrows = 2, ncols = 2, cells = [[1, 2], [3, 4]]\<rparr> 2
       = Inr (replicate 708 0 @ [128, 1, 9, 9, 0, 2, 9, 9, 128, 0, 9, 9, 0, 1, 9, 9])"
    by (simp add: write_sector_to_file_def np_flipud_def getitem2_def py_int_def
        to_bytes2_little_def set_slice2_def upt2)
  have v: "to_bytes2_little (max 0 (min 65535 (py_int (4 * 128)))) = Inr [0, 2]"
    by (simp add: py_int_def to_bytes2_little_def)
  show ?thesis using encode_value_formula [OF h1 h2 h3 h4 h5 h6] h1 h2 h3 h4 e v by simp
qed

theorem encode_value_formula_counterexample:
  "write_sector_to_file (replicate 708 0 @ [9, 9, 9, 9]) \<lparr>nrows = 1, ncols = 1, cells = [[3 / 512]]\<rparr> 1
     = Inr (replicate 708 0 @ [0, 0, 9, 9])
   \<and> to_bytes2_little (max 0 (min 65535 (round (3 / 512 * 128 :: rat)))) = Inr [1, 0]
   \<and> write_sector_to_file (replicate 708 0 @ [9, 9, 9, 9, 9, 9, 9, 9, 9, 9, 9, 9, 9, 9, 9, 9])
        \<lparr>nrows = 2, ncols = 2, cells = [[1, 2], [3, 4]]\<rparr> 2
     = Inr (replicate 708 0 @ [128, 1, 9, 9, 0, 2, 9, 9, 128, 0, 9, 9, 0, 1, 9, 9])
   \<and> to_bytes2_little (max 0 (min 65535 (round (1 * 128 :: rat)))) = Inr [128, 0]"
proof -
  have a: "write_sector_to_file (replicate 708 0 @ [9, 9, 9, 9]) \<lparr>nrows = 1, ncols = 1, cells = [[3 / 512]]\<rparr> 1
     = Inr (replicate 708 0 @ [0, 0, 9, 9])"
    by (simp add: write_sector_to_file_def np_flipud_def getitem2_def py_int_def
        to_bytes2_little_def set_slice2_def floor_eq_iff)
  have b: "to_bytes2_little (max 0 (min 65535 (round (3 / 512 * 128 :: rat)))) = Inr [1, 0]"
    by (simp add: round_def to_bytes2_little_def floor54)
  have c: "write_sector_to_file (replicate 708 0 @ [9, 9, 9, 9, 9, 9, 9, 9, 9, 9, 9, 9, 9, 9, 9, 9])
        \<lparr>nrows = 2, ncols = 2, cells = [[1, 2], [3, 4]]\<rparr> 2
     = Inr (replicate 708 0 @ [128, 1, 9, 9, 0, 2, 9, 9, 128, 0, 9, 9, 0, 1, 9, 9])"
    by (simp add: write_sector_to_file_def np_flipud_def getitem2_def py_int_def
        to_bytes2_little_def set_slice2_def upt2)
  have d: "to_bytes2_little (max 0 (min 65535 (round (1 * 128 :: rat)))) = Inr [128, 0]"
    by (simp add: to_bytes2_little_def)
  show ?thesis using a b c d by simp
qed


text \<open>
  C3 (split after compose), as the code has it. For all \<open>sectors_x\<close>, \<open>sectors_y\<close> and
  \<open>grid_size\<close> and every sector map whose grids are \<open>grid_size\<close>-square,
  \<open>create_combined_heightmap\<close> succeeds, and the export path applied to its output with the
  extra display rotation (quarter turn clockwise, mirror, quarter turn clockwise, block
  extraction, and the vertical flip of \<open>write_sector_to_file\<close>) gives, at every display
  position, the grid of the sector shown there, whose index is
  \<open>(sectors_y - 1 - display_row) * sectors_x + col\<close>: exactly the original grid when that
  sector is present, and the all-zero \<open>grid_size\<close>-square patch when it is absent. The
  mosaic carries no mark of absence; the export writes every position whose file exists.
\<close>

theorem split_inverts_compose:
  assumes square: "\<forall>k s. map_of sectors_data k = Some s \<longrightarrow>
                     shape_ok s \<and> nrows s = grid_size \<and> ncols s = grid_size"
    and dr: "display_row < sectors_y" and c: "col < sectors_x"
  shows "\<exists>mosaic. create_combined_heightmap sectors_data sectors_x sectors_y grid_size = Inr mosaic
       \<and> np_flipud (sector_block (undo_display_transforms (np_rot90 mosaic 1))
                      grid_size display_row col)
         = (case map_of sectors_data (int ((sectors_y - 1 - display_row) * sectors_x + col)) of
              Some s \<Rightarrow> s
            | None \<Rightarrow> np_zeros grid_size grid_size)"
proof -
  let ?X = sectors_x and ?Y = sectors_y and ?g = grid_size
  have fit: "sectors_fit sectors_data ?X ?Y ?g"
    using square by (simp add: sectors_fit_def slot_sector_def)
  obtain cm where p: "place_sectors sectors_data ?X ?Y ?g = Inr cm"
    and cm: "shape_ok cm" "nrows cm = ?Y * ?g" "ncols cm = ?X * ?g"
    and cells: "\<forall>i<?Y * ?g. \<forall>j<?X * ?g. cell_at cm i j =
               (case slot_sector sectors_data ?X ?Y (i div ?g) (j div ?g) of
                  Some s \<Rightarrow> cell_at (np_flipud s) (i mod ?g) (j mod ?g)
                | None \<Rightarrow> 0)"
    using place_sectors_cells [OF fit] by blast
  have run: "create_combined_heightmap sectors_data ?X ?Y ?g = Inr (np_fliplr (np_rot90 cm 1))"
    using p by (simp add: create_combined_heightmap_def)
  have undo: "undo_display_transforms (np_rot90 (np_fliplr (np_rot90 cm 1)) 1) = cm"
    using cm(1) by (rule undo_display_transforms_inverse)
  have blk: "sector_block cm ?g display_row col =
         (case slot_sector sectors_data ?X ?Y display_row col of
            Some s \<Rightarrow> np_flipud s | None \<Rightarrow> np_zeros ?g ?g)"
    using cm cells fit dr c by (rule placed_block)
  have z: "np_flipud (np_zeros ?g ?g) = np_zeros ?g ?g"
    by (simp add: np_flipud_def np_zeros_def)
  have "np_flipud (sector_block cm ?g display_row col)
         = (case map_of sectors_data (int ((?Y - 1 - display_row) * ?X + col)) of
              Some s \<Rightarrow> s | None \<Rightarrow> np_zeros ?g ?g)"
    by (simp add: blk slot_sector_def np_flipud_flipud z split: option.splits)
  then show ?thesis using run undo by simp
qed


theorem split_inverts_compose_witness:
  "(0::nat) < 1 \<and> (0::nat) < 1
   \<and> create_combined_heightmap [(0, \<lparr>nrows = 2, ncols = 2, cells = [[1, 2], [3, 4]]\<rparr>)] 1 1 2
       = Inr \<lparr>nrows = 2, ncols = 2, cells = [[2, 4], [1, 3]]\<rparr>
   \<and> np_flipud (sector_block
         (undo_display_transforms (np_rot90 \<lparr>nrows = 2, ncols = 2, cells = [[2, 4], [1, 3]]\<rparr> 1)) 2 0 0)
       = \<lparr>nrows = 2, ncols = 2, cells = [[1, 2], [3, 4]]\<rparr>"
proof -
  have h1: "\<forall>k s. map_of [(0, \<lparr>nrows = 2, ncols = 2, cells = [[1, 2], [3, 4]]\<rparr>)] k = Some s \<longrightarrow>
                     shape_ok s \<and> nrows s = 2 \<and> ncols s = 2"
    by (simp add: shape_ok_def)
  have h2: "(0::nat) < 1" by simp
  have e: "create_combined_heightmap [(0, \<lparr>nrows = 2, ncols = 2, cells = [[1, 2], [3, 4]]\<rparr>)] 1 1 2
       = Inr \<lparr>nrows = 2, ncols = 2, cells = [[2, 4], [1, 3]]\<rparr>"
    by (simp add: create_combined_heightmap_def place_sectors_def np_zeros_def np_rot90_def
        np_fliplr_def np_flipud_def np_transpose_def np_set_slice_def tabulate2_def cell_at_def
        upt1 upt2 Let_def)
  show ?thesis using split_inverts_compose [OF h1 h2 h2] h2 e by simp
qed

theorem split_inverts_compose_counterexample:
  "create_combined_heightmap [(0, \<lparr>nrows = 1, ncols = 1, cells = [[1]]\<rparr>), (5, \<lparr>nrows = 1, ncols = 1, cells = [[2]]\<rparr>)] 2 1 1 = Inr \<lparr>nrows = 2, ncols = 1, cells = [[0], [1]]\<rparr>
   \<and> map_of [(0 :: int, \<lparr>nrows = 1, ncols = 1, cells = [[1]]\<rparr>), (5, \<lparr>nrows = 1, ncols = 1, cells = [[2]]\<rparr>)] 1 = None
   \<and> files (export_rows (undo_display_transforms (np_rot90 \<lparr>nrows = 2, ncols = 1, cells = [[0], [1]]\<rparr> 1)) 2 1 1 [0..<1]
          \<lparr>files = [0 \<mapsto> replicate 708 0 @ [9, 9, 9, 9], 1 \<mapsto> replicate 708 0 @ [9, 9, 9, 9],
                    5 \<mapsto> replicate 708 0 @ [9, 9, 9, 9]],
           sectors_written = 0, sectors_failed = 0\<rparr>) 1 = Some (replicate 708 0 @ [0, 0, 9, 9])
   \<and> map_of [(0 :: int, \<lparr>nrows = 1, ncols = 1, cells = [[1]]\<rparr>), (5, \<lparr>nrows = 1, ncols = 1, cells = [[2]]\<rparr>)] 5 = Some \<lparr>nrows = 1, ncols = 1, cells = [[2]]\<rparr>
   \<and> files (export_rows (undo_display_transforms (np_rot90 \<lparr>nrows = 2, ncols = 1, cells = [[0], [1]]\<rparr> 1)) 2 1 1 [0..<1]
          \<lparr>files = [0 \<mapsto> replicate 708 0 @ [9, 9, 9, 9], 1 \<mapsto> replicate 708 0 @ [9, 9, 9, 9],
                    5 \<mapsto> replicate 708 0 @ [9, 9, 9, 9]],
           sectors_written = 0, sectors_failed = 0\<rparr>) 5 = Some (replicate 708 0 @ [9, 9, 9, 9])
   \<and> files (export_rows (undo_display_transforms (np_rot90 \<lparr>nrows = 2, ncols = 1, cells = [[0], [1]]\<rparr> 1)) 2 1 1 [0..<1]
          \<lparr>files = [0 \<mapsto> replicate 708 0 @ [9, 9, 9, 9], 1 \<mapsto> replicate 708 0 @ [9, 9, 9, 9],
                    5 \<mapsto> replicate 708 0 @ [9, 9, 9, 9]],
           sectors_written = 0, sectors_failed = 0\<rparr>) 0 = Some (replicate 708 0 @ [128, 0, 9, 9])
   \<and> sectors_written (export_rows (undo_display_transforms (np_rot90 \<lparr>nrows = 2, ncols = 1, cells = [[0], [1]]\<rparr> 1)) 2 1 1 [0..<1]
          \<lparr>files = [0 \<mapsto> replicate 708 0 @ [9, 9, 9, 9], 1 \<mapsto> replicate 708 0 @ [9, 9, 9, 9],
                    5 \<mapsto> replicate 708 0 @ [9, 9, 9, 9]],
           sectors_written = 0, sectors_failed = 0\<rparr>) = 2"
  by (simp add: create_combined_heightmap_def place_sectors_def np_zeros_def np_rot90_def
        np_fliplr_def np_flipud_def np_transpose_def np_set_slice_def np_slice_def tabulate2_def
        cell_at_def sector_block_def undo_display_transforms_def
        write_sector_to_file_def getitem2_def py_int_def to_bytes2_little_def set_slice2_def
        upt1 upt2 Let_def)

text \<open>
  C4 (normalisation and its inverse), as the code has it, over exact arithmetic. For a
  mosaic whose maximum exceeds its minimum, denormalising the normalised mosaic with that
  minimum and maximum gives the mosaic back. For a mosaic whose maximum equals its
  minimum, the normalised image is all zero, and denormalising it multiplies every pixel
  by the maximum, which gives the all-zero mosaic again (the all-maximum mosaic only when
  the maximum is 0).
\<close>

theorem normalization_inverse:
  assumes lo: "np_min mosaic = Inr lo" and hi: "np_max mosaic = Inr hi"
  shows "(lo < hi \<longrightarrow>
            (\<exists>image. normalize mosaic = Inr image \<and> denormalize image lo hi = mosaic))
       \<and> (lo = hi \<longrightarrow>
            normalize mosaic = Inr (np_zeros_like mosaic)
          \<and> denormalize (np_zeros_like mosaic) hi hi = np_zeros_like mosaic)"
proof (intro conjI impI)
  assume lt: "lo < hi"
  have n: "normalize mosaic = Inr (map_cells (\<lambda>v. (v - lo) / (hi - lo)) mosaic)"
    using lt by (simp add: normalize_def lo hi)
  have "\<And>v. ((\<lambda>p. p * (hi - lo) + lo) \<circ> (\<lambda>v. (v - lo) / (hi - lo))) v = v"
    using lt by simp
  then have "map_cells ((\<lambda>p. p * (hi - lo) + lo) \<circ> (\<lambda>v. (v - lo) / (hi - lo))) mosaic = mosaic"
    by (rule map_cells_id)
  then have "denormalize (map_cells (\<lambda>v. (v - lo) / (hi - lo)) mosaic) lo hi = mosaic"
    using lt by (simp add: denormalize_def map_cells_comp)
  then show "\<exists>image. normalize mosaic = Inr image \<and> denormalize image lo hi = mosaic"
    using n by simp
next
  assume eq: "lo = hi"
  show "normalize mosaic = Inr (np_zeros_like mosaic)"
    using eq by (simp add: normalize_def lo hi)
next
  assume eq: "lo = hi"
  show "denormalize (np_zeros_like mosaic) hi hi = np_zeros_like mosaic"
    by (simp add: denormalize_def np_zeros_like_def map_cells_zeros)
qed

theorem normalization_inverse_witness:
  "np_min \<lparr>nrows = 1, ncols = 2, cells = [[1, 3]]\<rparr> = Inr 1
   \<and> np_max \<lparr>nrows = 1, ncols = 2, cells = [[1, 3]]\<rparr> = Inr 3
   \<and> (1 :: rat) < 3
   \<and> normalize \<lparr>nrows = 1, ncols = 2, cells = [[1, 3]]\<rparr>
       = Inr \<lparr>nrows = 1, ncols = 2, cells = [[0, 1]]\<rparr>
   \<and> denormalize \<lparr>nrows = 1, ncols = 2, cells = [[0, 1]]\<rparr> 1 3
       = \<lparr>nrows = 1, ncols = 2, cells = [[1, 3]]\<rparr>
   \<and> np_min \<lparr>nrows = 1, ncols = 2, cells = [[5, 5]]\<rparr> = Inr 5
   \<and> np_max \<lparr>nrows = 1, ncols = 2, cells = [[5, 5]]\<rparr> = Inr 5
   \<and> normalize \<lparr>nrows = 1, ncols = 2, cells = [[5, 5]]\<rparr>
       = Inr (np_zeros_like \<lparr>nrows = 1, ncols = 2, cells = [[5, 5]]\<rparr>)
   \<and> denormalize (np_zeros_like \<lparr>nrows = 1, ncols = 2, cells = [[5, 5]]\<rparr>) 5 5
       = np_zeros_like \<lparr>nrows = 1, ncols = 2, cells = [[5, 5]]\<rparr>"
proof -
  have a1: "np_min \<lparr>nrows = 1, ncols = 2, cells = [[1, 3]]\<rparr> = Inr 1"
    by (simp add: np_min_def py_min_def flatten_def)
  have a2: "np_max \<lparr>nrows = 1, ncols = 2, cells = [[1, 3]]\<rparr> = Inr 3"
    by (simp add: np_max_def py_max_def flatten_def)
  have b1: "np_min \<lparr>nrows = 1, ncols = 2, cells = [[5, 5]]\<rparr> = Inr 5"
    by (simp add: np_min_def py_min_def flatten_def)
  have b2: "np_max \<lparr>nrows = 1, ncols = 2, cells = [[5, 5]]\<rparr> = Inr 5"
    by (simp add: np_max_def py_max_def flatten_def)
  have n: "normalize \<lparr>nrows = 1, ncols = 2, cells = [[1, 3]]\<rparr>
       = Inr \<lparr>nrows = 1, ncols = 2, cells = [[0, 1]]\<rparr>"
    by (simp add: normalize_def np_min_def np_max_def py_min_def py_max_def flatten_def
        map_cells_def)
  show ?thesis
    using normalization_inverse [OF a1 a2] normalization_inverse [OF b1 b2] a1 a2 b1 b2 n
    by simp
qed

theorem normalization_flat_counterexample:
  "np_min \<lparr>nrows = 1, ncols = 1, cells = [[1]]\<rparr> = Inr 1
   \<and> np_max \<lparr>nrows = 1, ncols = 1, cells = [[1]]\<rparr> = Inr 1
   \<and> normalize \<lparr>nrows = 1, ncols = 1, cells = [[1]]\<rparr> = Inr \<lparr>nrows = 1, ncols = 1, cells = [[0]]\<rparr>
   \<and> denormalize \<lparr>nrows = 1, ncols = 1, cells = [[0]]\<rparr> 1 1 = \<lparr>nrows = 1, ncols = 1, cells = [[0]]\<rparr>
   \<and> \<lparr>nrows = 1, ncols = 1, cells = [[0]]\<rparr> \<noteq> \<lparr>nrows = 1, ncols = 1, cells = [[1 :: rat]]\<rparr>"
  by (simp add: np_min_def np_max_def py_min_def py_max_def flatten_def normalize_def
      denormalize_def map_cells_def np_zeros_like_def np_zeros_def)

text \<open>
  C5 (mosaic shape), as the code has it. The array is laid out with
  \<open>sectors_y * grid_size\<close> rows and \<open>sectors_x * grid_size\<close> columns and then turned by a
  quarter, which swaps the axes: whenever \<open>create_combined_heightmap\<close> returns a mosaic, it
  is a two-dimensional array with \<open>sectors_x * grid_size\<close> rows and
  \<open>sectors_y * grid_size\<close> columns.
\<close>

theorem mosaic_shape:
  assumes "create_combined_heightmap sectors_data sectors_x sectors_y grid_size = Inr mosaic"
  shows "nrows mosaic = sectors_x * grid_size \<and> ncols mosaic = sectors_y * grid_size
       \<and> shape_ok mosaic"
proof -
  obtain cm where p: "place_sectors sectors_data sectors_x sectors_y grid_size = Inr cm"
    and m: "mosaic = np_fliplr (np_rot90 cm 1)"
    using assms by (auto simp: create_combined_heightmap_def split: sum.splits)
  note f = place_sectors_frame [OF p]
  show ?thesis using f by (simp add: m)
qed

theorem mosaic_shape_witness:
  "create_combined_heightmap [] 2 1 1 = Inr \<lparr>nrows = 2, ncols = 1, cells = [[0], [0]]\<rparr>
   \<and> nrows \<lparr>nrows = 2, ncols = 1, cells = [[0 :: rat], [0]]\<rparr> = 2 * 1
   \<and> ncols \<lparr>nrows = 2, ncols = 1, cells = [[0 :: rat], [0]]\<rparr> = 1 * 1
   \<and> shape_ok \<lparr>nrows = 2, ncols = 1, cells = [[0], [0]]\<rparr>"
proof -
  have h: "create_combined_heightmap [] 2 1 1 = Inr \<lparr>nrows = 2, ncols = 1, cells = [[0], [0]]\<rparr>"
    by (simp add: create_combined_heightmap_def place_sectors_def np_zeros_def np_rot90_def
        np_fliplr_def np_transpose_def tabulate2_def cell_at_def upt1 upt2 Let_def)
  show ?thesis using mosaic_shape [OF h] h by simp
qed

theorem mosaic_shape_counterexample:
  "create_combined_heightmap [] 2 1 1 = Inr \<lparr>nrows = 2, ncols = 1, cells = [[0], [0]]\<rparr>
   \<and> nrows \<lparr>nrows = 2, ncols = 1, cells = [[0 :: rat], [0]]\<rparr> \<noteq> 1 * 1
   \<and> ncols \<lparr>nrows = 2, ncols = 1, cells = [[0 :: rat], [0]]\<rparr> \<noteq> 2 * 1"
  by (simp add: create_combined_heightmap_def place_sectors_def np_zeros_def np_rot90_def
        np_fliplr_def np_transpose_def tabulate2_def cell_at_def upt1 upt2 Let_def)

text \<open>
  C6 (encoding over a buffer that is too small), as the code has it. The encoder has no
  length check and a slice assignment past the end of a bytearray extends it, so the
  length of the original buffer never makes \<open>write_sector_to_file\<close> fail: for every
  original buffer, whatever its length, and every grid with at least \<open>grid_size\<close> rows and
  columns, it succeeds (returns \<open>True\<close>) and writes a buffer.
\<close>

theorem encode_short_buffer_succeeds:
  assumes "grid_size \<le> nrows height_data" and "grid_size \<le> ncols height_data"
  shows "\<exists>out. write_sector_to_file file_content height_data grid_size = Inr out"
  unfolding write_sector_rows
  by (rule write_rows_succeeds) (use assms in \<open>simp_all add: np_flipud_def\<close>)

theorem encode_short_buffer_succeeds_witness:
  "(1::nat) \<le> nrows \<lparr>nrows = 1, ncols = 1, cells = [[0]]\<rparr>
   \<and> (1::nat) \<le> ncols \<lparr>nrows = 1, ncols = 1, cells = [[0]]\<rparr>
   \<and> write_sector_to_file [] \<lparr>nrows = 1, ncols = 1, cells = [[0]]\<rparr> 1 = Inr [0, 0]"
proof -
  have h1: "(1::nat) \<le> nrows \<lparr>nrows = 1, ncols = 1, cells = [[0]]\<rparr>" by simp
  have h2: "(1::nat) \<le> ncols \<lparr>nrows = 1, ncols = 1, cells = [[0]]\<rparr>" by simp
  have e: "write_sector_to_file [] \<lparr>nrows = 1, ncols = 1, cells = [[0]]\<rparr> 1 = Inr [0, 0]"
    by (simp add: write_sector_to_file_def np_flipud_def getitem2_def py_int_def
        to_bytes2_little_def set_slice2_def)
  show ?thesis using encode_short_buffer_succeeds [OF h1 h2, of "[]"] h1 h2 e by simp
qed

theorem encode_too_small_counterexample:
  "length ([] :: byte list) < 708 + 1 * 1 * 4
   \<and> write_sector_to_file [] \<lparr>nrows = 1, ncols = 1, cells = [[0]]\<rparr> 1 = Inr [0, 0]"
  by (simp add: write_sector_to_file_def np_flipud_def getitem2_def py_int_def
        to_bytes2_little_def set_slice2_def)


text \<open>
  C7 (encode frame property). For every original buffer of at least
  \<open>708 + grid_size * grid_size * 4\<close> bytes and every grid for which the encoder returns an
  output, the output has the length of the original and differs from it at most at the
  sample positions \<open>708 + 4 * i\<close> and \<open>708 + 4 * i + 1\<close> with \<open>i < grid_size * grid_size\<close>; in
  particular the 708 header bytes, the two payload bytes of every cell and every byte
  after the elevation region are unchanged.
\<close>

theorem encode_frame:
  assumes len: "708 + grid_size * grid_size * 4 \<le> length file_content"
    and run: "write_sector_to_file file_content height_data grid_size = Inr out"
  shows "length out = length file_content
       \<and> (\<forall>p<length file_content.
             (\<forall>i<grid_size * grid_size. p \<noteq> 708 + 4 * i \<and> p \<noteq> 708 + 4 * i + 1)
             \<longrightarrow> out ! p = file_content ! p)
       \<and> (\<forall>p<708. out ! p = file_content ! p)
       \<and> (\<forall>i<grid_size * grid_size.
             out ! (708 + 4 * i + 2) = file_content ! (708 + 4 * i + 2)
           \<and> out ! (708 + 4 * i + 3) = file_content ! (708 + 4 * i + 3))
       \<and> (\<forall>p<length file_content. 708 + grid_size * grid_size * 4 \<le> p
             \<longrightarrow> out ! p = file_content ! p)"
proof -
  let ?g = grid_size
  have rows: "write_rows (np_flipud height_data) ?g [0..<?g] file_content = Inr out"
    using run by (simp only: write_sector_rows)
  have pos: "\<forall>y\<in>set [0..<?g]. \<forall>x<?g. cell_pos ?g y x + 2 \<le> length file_content"
    using cell_pos_fits [OF len] by simp
  note eff = write_rows_effect [OF rows pos]
  have L: "length out = length file_content" using eff by simp
  have F: "\<forall>p<length file_content.
             (\<forall>i<?g * ?g. p \<noteq> 708 + 4 * i \<and> p \<noteq> 708 + 4 * i + 1)
             \<longrightarrow> out ! p = file_content ! p"
  proof (intro allI impI)
    fix p assume p: "p < length file_content"
      and np: "\<forall>i<?g * ?g. p \<noteq> 708 + 4 * i \<and> p \<noteq> 708 + 4 * i + 1"
    have "\<forall>y\<in>set [0..<?g]. \<forall>x<?g. p \<noteq> cell_pos ?g y x \<and> p \<noteq> cell_pos ?g y x + 1"
    proof (intro ballI allI impI)
      fix y x assume "y \<in> set [0..<?g]" and x: "x < ?g"
      then have "y * ?g + x < ?g * ?g" by (intro idx_bound) simp_all
      then show "p \<noteq> cell_pos ?g y x \<and> p \<noteq> cell_pos ?g y x + 1"
        using np by (simp only: cell_pos_index) blast
    qed
    then show "out ! p = file_content ! p" using eff p by blast
  qed
  have H: "\<forall>p<708. out ! p = file_content ! p"
  proof (intro allI impI)
    fix p :: nat assume p: "p < 708"
    then have "p < length file_content" using len by simp
    moreover have "\<forall>i<?g * ?g. p \<noteq> 708 + 4 * i \<and> p \<noteq> 708 + 4 * i + 1" using p by simp
    ultimately show "out ! p = file_content ! p" using F by blast
  qed
  have P: "\<forall>i<?g * ?g.
             out ! (708 + 4 * i + 2) = file_content ! (708 + 4 * i + 2)
           \<and> out ! (708 + 4 * i + 3) = file_content ! (708 + 4 * i + 3)"
  proof (intro allI impI)
    fix i assume i: "i < ?g * ?g"
    have a: "708 + 4 * i + 2 < length file_content" "708 + 4 * i + 3 < length file_content"
      using i len by simp_all
    have b: "\<forall>j<?g * ?g. 708 + 4 * i + 2 \<noteq> 708 + 4 * j \<and> 708 + 4 * i + 2 \<noteq> 708 + 4 * j + 1"
      by presburger
    have c: "\<forall>j<?g * ?g. 708 + 4 * i + 3 \<noteq> 708 + 4 * j \<and> 708 + 4 * i + 3 \<noteq> 708 + 4 * j + 1"
      by presburger
    show "out ! (708 + 4 * i + 2) = file_content ! (708 + 4 * i + 2)
           \<and> out ! (708 + 4 * i + 3) = file_content ! (708 + 4 * i + 3)"
      using F a b c by blast
  qed
  have T: "\<forall>p<length file_content. 708 + ?g * ?g * 4 \<le> p \<longrightarrow> out ! p = file_content ! p"
  proof (intro allI impI)
    fix p assume p: "p < length file_content" and q: "708 + ?g * ?g * 4 \<le> p"
    have "\<forall>i<?g * ?g. p \<noteq> 708 + 4 * i \<and> p \<noteq> 708 + 4 * i + 1" using q by auto
    then show "out ! p = file_content ! p" using F p by blast
  qed
  show ?thesis using L F H P T by blast
qed

theorem encode_frame_witness:
  "708 + 1 * 1 * 4 \<le> length (replicate 708 7 @ [1, 2, 3, 4 :: byte])
   \<and> write_sector_to_file (replicate 708 7 @ [1, 2, 3, 4]) \<lparr>nrows = 1, ncols = 1, cells = [[1]]\<rparr> 1
       = Inr (replicate 708 7 @ [128, 0, 3, 4])
   \<and> length (replicate 708 7 @ [128, 0, 3, 4 :: byte]) = length (replicate 708 7 @ [1, 2, 3, 4 :: byte])
   \<and> (replicate 708 7 @ [128, 0, 3, 4 :: byte]) ! 710 = (replicate 708 7 @ [1, 2, 3, 4]) ! 710"
proof -
  have h1: "708 + 1 * 1 * 4 \<le> length (replicate 708 7 @ [1, 2, 3, 4 :: byte])" by simp
  have h2: "write_sector_to_file (replicate 708 7 @ [1, 2, 3, 4]) \<lparr>nrows = 1, ncols = 1, cells = [[1]]\<rparr> 1
       = Inr (replicate 708 7 @ [128, 0, 3, 4])"
    by (simp add: write_sector_to_file_def np_flipud_def getitem2_def py_int_def
        to_bytes2_little_def set_slice2_def)
  show ?thesis using encode_frame [OF h1 h2] h1 h2 by (simp add: nth_append)
qed


text \<open>
  C8 (decode contract) at \<open>grid_size = 66\<close>: the file holds the \<open>708 + 66 * 66 * 4\<close> bytes the
  contract asks for, but \<open>load_single_sector\<close> reads only 16900 of them, the rows come out
  with unequal lengths and the function returns no grid. (For every \<open>grid_size\<close> up to 65
  the contract holds: lemma \<open>decode_full\<close>.)
\<close>

theorem decode_read_window_too_small:
  "load_single_sector (replicate (708 + 66 * 66 * 4) 0) 66 = Inl ValueError"
  by (rule decode_ragged) (simp_all add: window_def)


text \<open>
  C9 (truncated sector file), as the code has it. A sector file of at least 710 and at
  most 17605 bytes (at least one elevation sample, but not all 4225, can be read at grid
  size 65) makes \<open>load_single_sector\<close> fail softly: the directory is loaded exactly as if
  the file were not there, so every other file is still decoded; when no other file
  carries its sector number, the sector is not in the sector map, and when the sectors
  are placed its slot is the all-zero 65-square patch.
\<close>

theorem truncated_sector_is_skipped:
  assumes len: "710 \<le> length file_content" "length file_content \<le> 17605"
    and only: "Some k \<notin> fst ` set (before @ after)"
    and placed: "place_sectors
                   (load_sectors_from_directory (before @ (Some k, file_content) # after)
                      sectors_x sectors_y)
                   sectors_x sectors_y 65 = Inr combined_map"
    and dr: "display_row < sectors_y" and c: "col < sectors_x"
    and k: "k = int ((sectors_y - 1 - display_row) * sectors_x + col)"
  shows "load_single_sector file_content 65 = Inl ValueError
       \<and> load_sectors_from_directory (before @ (Some k, file_content) # after) sectors_x sectors_y
           = load_sectors_from_directory (before @ after) sectors_x sectors_y
       \<and> map_of (load_sectors_from_directory (before @ (Some k, file_content) # after)
                    sectors_x sectors_y) k = None
       \<and> sector_block combined_map 65 display_row col = np_zeros 65 65"
proof -
  let ?dir = "before @ (Some k, file_content) # after"
  have d: "load_single_sector file_content 65 = Inl ValueError"
    using len by (rule decode_truncated_65)
  have same: "load_sectors_from_directory ?dir sectors_x sectors_y
           = load_sectors_from_directory (before @ after) sectors_x sectors_y"
    using load_files_skip [OF d] by (simp add: load_sectors_from_directory_def)
  have "map_of (load_files (before @ after) []) k = None"
    using only by (intro load_files_absent) simp_all
  then have absent: "map_of (load_sectors_from_directory ?dir sectors_x sectors_y) k = None"
    using same by (simp add: load_sectors_from_directory_def)
  have "slot_sector (load_sectors_from_directory ?dir sectors_x sectors_y)
          sectors_x sectors_y display_row col = None"
    using absent k by (simp add: slot_sector_def)
  with placed dr c have "sector_block combined_map 65 display_row col = np_zeros 65 65"
    by (rule absent_block_zero)
  then show ?thesis using d same absent by simp
qed

theorem truncated_sector_is_skipped_witness:
  "710 \<le> length (replicate 808 0 :: byte list) \<and> length (replicate 808 0 :: byte list) \<le> 17605
   \<and> Some (0 :: int) \<notin> fst ` set ([] @ [(Some 1, replicate 17608 (0 :: byte))])
   \<and> load_single_sector (replicate 808 0) 65 = Inl ValueError
   \<and> load_sectors_from_directory [(Some 0, replicate 808 0), (Some 1, replicate 17608 0)] 2 1
       = [(1, np_zeros 65 65)]
   \<and> map_of (load_sectors_from_directory
                [(Some 0, replicate 808 0), (Some 1, replicate 17608 0)] 2 1) 0 = None
   \<and> (\<exists>combined_map.
         place_sectors (load_sectors_from_directory
                          [(Some 0, replicate 808 0), (Some 1, replicate 17608 0)] 2 1) 2 1 65
           = Inr combined_map
       \<and> sector_block combined_map 65 0 0 = np_zeros 65 65)"
proof -
  have h1: "710 \<le> length (replicate 808 0 :: byte list)" by simp
  have h2: "length (replicate 808 0 :: byte list) \<le> 17605" by simp
  have h3: "Some (0 :: int) \<notin> fst ` set ([] @ [(Some 1, replicate 17608 (0 :: byte))])" by simp
  have bad: "load_single_sector (replicate 808 0) 65 = Inl ValueError"
    using h1 h2 by (rule decode_truncated_65)
  have good: "load_single_sector (replicate 17608 0) 65 = Inr (np_zeros 65 65)"
    by (rule decode_zeros_65) simp
  have lsd: "load_sectors_from_directory [(Some 0, replicate 808 0), (Some 1, replicate 17608 0)] 2 1
       = [(1, np_zeros 65 65)]"
    by (simp add: load_sectors_from_directory_def bad good)
  have fit: "sectors_fit [(1, np_zeros 65 65)] 2 1 65"
    by (simp add: sectors_fit_def slot_sector_def)
  obtain cm where p: "place_sectors [(1, np_zeros 65 65)] 2 1 65 = Inr cm"
    using place_sectors_cells [OF fit] by blast
  have placed: "place_sectors
       (load_sectors_from_directory ([] @ (Some 0, replicate 808 0) # [(Some 1, replicate 17608 0)]) 2 1)
       2 1 65 = Inr cm"
    using p lsd by simp
  have dr: "(0 :: nat) < 1" and c: "(0 :: nat) < 2" by simp_all
  have k: "(0 :: int) = int ((1 - 1 - 0) * 2 + 0)" by simp
  note t = truncated_sector_is_skipped [OF h1 h2 h3 placed dr c k]
  have "sector_block cm 65 0 0 = np_zeros 65 65" using t by blast
  then have ex: "\<exists>combined_map.
         place_sectors (load_sectors_from_directory
                          [(Some 0, replicate 808 0), (Some 1, replicate 17608 0)] 2 1) 2 1 65
           = Inr combined_map
       \<and> sector_block combined_map 65 0 0 = np_zeros 65 65"
    using p lsd by simp
  have "map_of (load_sectors_from_directory
                ([] @ (Some 0, replicate 808 0) # [(Some 1, replicate 17608 0)]) 2 1) 0 = None"
    using t by blast
  then have none: "map_of (load_sectors_from_directory
                [(Some 0, replicate 808 0), (Some 1, replicate 17608 0)] 2 1) 0 = None"
    by (simp only: append_Nil)
  show ?thesis using h1 h2 h3 bad lsd none ex by blast
qed

theorem truncated_sector_counterexample:
  "length (replicate 17606 0 :: byte list) < 708 + 65 * 65 * 4
   \<and> load_single_sector (replicate 17606 0) 65 = Inr (np_zeros 65 65)
   \<and> map_of (load_sectors_from_directory [(Some 0, replicate 17606 0)] 1 1) 0
       = Some (np_zeros 65 65)
   \<and> length ([] :: byte list) < 708 + 65 * 65 * 4
   \<and> load_single_sector [] 65 = Inr \<lparr>nrows = 65, ncols = 0, cells = replicate 65 []\<rparr>
   \<and> map_of (load_sectors_from_directory [(Some 0, [])] 1 1) 0
       = Some \<lparr>nrows = 65, ncols = 0, cells = replicate 65 []\<rparr>
   \<and> create_combined_heightmap (load_sectors_from_directory [(Some 0, [])] 1 1) 1 1 65
       = Inl ValueError"
proof -
  have a: "load_single_sector (replicate 17606 0) 65 = Inr (np_zeros 65 65)"
    by (rule decode_zeros_65) simp
  have b: "load_single_sector [] 65 = Inr \<lparr>nrows = 65, ncols = 0, cells = replicate 65 []\<rparr>"
    by (rule decode_empty) (simp add: window_def)
  have la: "load_sectors_from_directory [(Some 0, replicate 17606 0)] 1 1 = [(0, np_zeros 65 65)]"
    by (simp add: load_sectors_from_directory_def a)
  have lb: "load_sectors_from_directory [(Some 0, [])] 1 1
       = [(0, \<lparr>nrows = 65, ncols = 0, cells = replicate 65 []\<rparr>)]"
    by (simp add: load_sectors_from_directory_def b)
  have ma: "map_of (load_sectors_from_directory [(Some 0, replicate 17606 0)] 1 1) 0
       = Some (np_zeros 65 65)"
    by (simp only: la) simp
  have mb: "map_of (load_sectors_from_directory [(Some 0, [])] 1 1) 0
       = Some \<lparr>nrows = 65, ncols = 0, cells = replicate 65 []\<rparr>"
    by (simp only: lb) simp
  have c: "create_combined_heightmap [(0, \<lparr>nrows = 65, ncols = 0, cells = replicate 65 []\<rparr>)] 1 1 65
       = Inl ValueError"
    by (simp add: create_combined_heightmap_def place_sectors_def np_set_slice_def upt1 Let_def)
  then have c': "create_combined_heightmap (load_sectors_from_directory [(Some 0, [])] 1 1) 1 1 65
       = Inl ValueError"
    by (simp only: lb)
  have l1: "length (replicate 17606 0 :: byte list) < 708 + 65 * 65 * 4" by simp
  have l2: "length ([] :: byte list) < 708 + 65 * 65 * 4" by simp
  show ?thesis using l1 a ma l2 b mb c' by blast
qed

text \<open>
  C10 (range of decoded values). For every byte buffer and every \<open>grid_size\<close>, every value
  \<open>v\<close> of a grid returned by \<open>load_single_sector\<close> is a non-negative integer multiple of
  \<open>1 / 128\<close>, at most \<open>65535 / 128\<close>: \<open>v * 128\<close> is the integer \<open>int(v * 128)\<close>, which lies in
  \<open>[0, 65535]\<close>. Hence the encoder's clamp leaves the value it computes for \<open>v\<close> unchanged.
\<close>

theorem decoded_values_in_range:
  assumes "load_single_sector file_content grid_size = Inr a"
    and "row \<in> set (cells a)" and "v \<in> set row"
  shows "v * 128 = of_int (py_int (v * 128)) \<and> 0 \<le> py_int (v * 128) \<and> py_int (v * 128) \<le> 65535
         \<and> max 0 (min 65535 (py_int (v * 128))) = py_int (v * 128)"
proof -
  have "cells a = read_rows grid_size grid_size (window file_content)"
    using assms(1) np_array_Inr_cells by (simp add: load_window)
  moreover have "\<forall>row\<in>set (read_rows grid_size grid_size (window file_content)). \<forall>v\<in>set row.
      v * 128 = of_int (py_int (v * 128)) \<and> 0 \<le> py_int (v * 128) \<and> py_int (v * 128) \<le> 65535
         \<and> max 0 (min 65535 (py_int (v * 128))) = py_int (v * 128)"
    by (rule read_rows_samples) (rule sample_value_range)
  ultimately show ?thesis using assms(2,3) by simp
qed

theorem decoded_values_in_range_witness:
  "load_single_sector (replicate 708 7 @ [255, 255, 3, 4]) 1
     = Inr \<lparr>nrows = 1, ncols = 1, cells = [[65535 / 128]]\<rparr>
   \<and> [65535 / 128] \<in> set (cells \<lparr>nrows = 1, ncols = 1, cells = [[65535 / 128]]\<rparr>)
   \<and> (65535 / 128 :: rat) \<in> set [65535 / 128]
   \<and> (65535 / 128 :: rat) * 128 = of_int (py_int (65535 / 128 * 128))
   \<and> 0 \<le> py_int (65535 / 128 * 128) \<and> py_int (65535 / 128 * 128) \<le> 65535
   \<and> max 0 (min 65535 (py_int (65535 / 128 * 128))) = py_int (65535 / 128 * 128)"
proof -
  have d: "load_single_sector (replicate 708 7 @ [255, 255, 3, 4]) 1
     = Inr \<lparr>nrows = 1, ncols = 1, cells = [[65535 / 128]]\<rparr>"
    by (simp add: load_single_sector_def np_array_def Let_def)
  have r: "[65535 / 128] \<in> set (cells \<lparr>nrows = 1, ncols = 1, cells = [[65535 / 128]]\<rparr>)"
    by simp
  have v: "(65535 / 128 :: rat) \<in> set [65535 / 128]" by simp
  show ?thesis using decoded_values_in_range [OF d r v] d r v by simp
qed


end
